theory Spec2Isabelle
  imports Complex_Main
begin

section \<open>Values\<close>

text \<open>
  The module works on Python objects: \<open>bytes\<close> (PHP strings), \<open>bool\<close>, \<open>int\<close>,
  \<open>float\<close>, \<open>None\<close>, a \<open>list\<close> of \<open>(key, value)\<close> tuples (PHP arrays) and a tuple
  \<open>(class_name, properties)\<close> (PHP objects, recognised by \<open>is_object\<close>). A byte is a
  \<open>char\<close>, a byte string a \<open>char list\<close>.
\<close>

type_synonym bytes = "char list"

text \<open>
  A Python float is kept by its exact value. Only its comparisons are modelled here; the
  conversions \<open>float(...)\<close> and \<open>str(...)\<close> between floats and text are parameters of the
  functions that call them.
\<close>

datatype pyfloat = Finite rat | NegZero | Infinity bool | NaN

text \<open>
  \<open>VHostStr\<close> is a Python \<open>str\<close>: a host object that is none of the types the module
  handles. It stands for every object that \<open>to_bytes\<close> falls through on.
\<close>

datatype val =
    VNull
  | VBool bool
  | VInt int
  | VFloat pyfloat
  | VBytes bytes
  | VHostStr string
  | VArray "(val \<times> val) list"
  | VObject bytes "(val \<times> val) list"

type_synonym items = "(val \<times> val) list"

datatype value_error =
    InvalidLiteralForInt bytes
  | CouldNotConvertToFloat bytes
  | NotEnoughValuesToUnpack
  | EmptySeparator
  | ExpectedListOrObject

datatype parse_message =
    NotEnoughBytes bytes
  | ExpectedButAppeared bytes bytes
  | UnknownType bytes
  | IncompleteEscape
  | UnterminatedString
  | ExpectedDigit
  | ExpectedStringOrNumber
  | UnexpectedCharInSelector
  | UnexpectedCharInArray
  | ClassNameEmpty
  | ExpectedValue
  | UnknownCommand bytes

datatype error =
    ParseError nat parse_message
  | SerializeError val
  | ValueError value_error
  | RecursionError

subsection \<open>Python equality\<close>

text \<open>
  The editor compares keys with Python's \<open>==\<close> and \<open>!=\<close>. On the objects above:
  \<open>bool\<close>, \<open>int\<close> and \<open>float\<close> compare by numeric value (\<open>True == 1\<close>, \<open>1 == 1.0\<close>,
  \<open>nan\<close> equals nothing), \<open>bytes\<close> equal only \<open>bytes\<close>, \<open>str\<close> only \<open>str\<close>, \<open>None\<close>
  only \<open>None\<close>, lists and tuples compare length and then element by element. (Python
  also takes two references to one and the same object inside a list as equal; the
  embedding has values, not references.)
\<close>

datatype pynum = Num rat | PosInf | NegInf

fun float_num :: "pyfloat \<Rightarrow> pynum option" where
  "float_num (Finite r) = Some (Num r)"
| "float_num NegZero = Some (Num 0)"
| "float_num (Infinity positive) = Some (if positive then PosInf else NegInf)"
| "float_num NaN = None"

fun num_of :: "val \<Rightarrow> pynum option" where
  "num_of (VBool b) = Some (Num (if b then 1 else 0))"
| "num_of (VInt i) = Some (Num (of_int i))"
| "num_of (VFloat f) = float_num f"
| "num_of _ = None"

text \<open>A size for the termination proofs: an object is larger than its property list.\<close>

function (sequential) vsize :: "val \<Rightarrow> nat" and vsize_items :: "items \<Rightarrow> nat" where
  "vsize (VArray ps) = 1 + vsize_items ps"
| "vsize (VObject n ps) = 2 + vsize_items ps"
| "vsize _ = 0"
| "vsize_items [] = 0"
| "vsize_items ((k, v) # ps) = 1 + vsize k + vsize v + vsize_items ps"
  by pat_completeness auto
termination
  by (relation "measure (\<lambda>x. case x of Inl v \<Rightarrow> size v
                                | Inr ps \<Rightarrow> size_list (size_prod size size) ps)") auto

function (sequential) py_eq :: "val \<Rightarrow> val \<Rightarrow> bool"
  and py_eq_items :: "items \<Rightarrow> items \<Rightarrow> bool" where
  "py_eq VNull VNull = True"
| "py_eq (VBytes a) (VBytes b) = (a = b)"
| "py_eq (VHostStr a) (VHostStr b) = (a = b)"
| "py_eq (VArray xs) (VArray ys) = py_eq_items xs ys"
| "py_eq (VObject n xs) (VObject m ys) = (n = m \<and> py_eq_items xs ys)"
| "py_eq a b =
     (case (num_of a, num_of b) of (Some x, Some y) \<Rightarrow> x = y | _ \<Rightarrow> False)"
| "py_eq_items [] [] = True"
| "py_eq_items ((k, v) # xs) ((k', v') # ys) =
     (py_eq k k' \<and> py_eq v v' \<and> py_eq_items xs ys)"
| "py_eq_items _ _ = False"
  by pat_completeness auto
termination
  by (relation "measure (\<lambda>x. case x of Inl (a, b) \<Rightarrow> vsize a
                                | Inr (xs, ys) \<Rightarrow> vsize_items xs)") auto

section \<open>The structural editor\<close>

text \<open>
  \<open>Query._get\<close>. \<open>get_loop\<close> is its \<open>for key, value in structure\<close> loop, which returns
  from inside at the first key equal to \<open>selector[0]\<close>; a list that runs out falls
  through \<open>is_object\<close> to \<open>return None\<close>.
\<close>

function Query_get :: "val list \<Rightarrow> val \<Rightarrow> val"
  and get_loop :: "val \<Rightarrow> val list \<Rightarrow> items \<Rightarrow> val" where
  "Query_get selector structure =
     (case selector of
        [] \<Rightarrow> structure
      | to_get # rest \<Rightarrow>
          (case structure of
             VArray its \<Rightarrow> get_loop to_get rest its
           | VObject class_name props \<Rightarrow> Query_get selector (VArray props)
           | _ \<Rightarrow> VNull))"
| "get_loop to_get rest [] = VNull"
| "get_loop to_get rest ((key, value) # its) =
     (if py_eq key to_get then Query_get rest value else get_loop to_get rest its)"
  by pat_completeness auto
termination
  by (relation "measure (\<lambda>x. case x of Inl (sel, s) \<Rightarrow> vsize s
                                | Inr (k, rest, its) \<Rightarrow> vsize_items its)") auto

text \<open>
  \<open>Query._set\<close>. \<open>set_loop\<close> is the loop over the pairs with its two variables
  \<open>modified_data\<close> and \<open>value_must_be_created\<close>, followed by the append of the missing
  key. The loop has no \<open>break\<close>: it visits every pair. On an object, \<open>_set\<close> calls itself
  on \<open>structure[1]\<close>, a list, with the same non-empty selector, which is the list branch;
  the tuple \<open>(structure[0], ...)\<close> around its result is the object.
\<close>

function Query_set :: "val list \<Rightarrow> val \<Rightarrow> val \<Rightarrow> error + val"
  and set_loop :: "val \<Rightarrow> val list \<Rightarrow> val \<Rightarrow> items \<Rightarrow> items \<Rightarrow> bool \<Rightarrow> error + items" where
  "Query_set selector value structure =
     (case selector of
        [] \<Rightarrow> Inr value
      | key # rest \<Rightarrow>
          (case structure of
             VArray its \<Rightarrow>
               (case set_loop key rest value its [] True of
                  Inl e \<Rightarrow> Inl e
                | Inr modified_data \<Rightarrow> Inr (VArray modified_data))
           | VObject class_name props \<Rightarrow>
               (case set_loop key rest value props [] True of
                  Inl e \<Rightarrow> Inl e
                | Inr modified_data \<Rightarrow> Inr (VObject class_name modified_data))
           | _ \<Rightarrow> Inl (ValueError ExpectedListOrObject)))"
| "set_loop key rest value [] modified_data value_must_be_created =
     (if value_must_be_created
      then (case Query_set rest value (VArray []) of
              Inl e \<Rightarrow> Inl e
            | Inr created \<Rightarrow> Inr (modified_data @ [(key, created)]))
      else Inr modified_data)"
| "set_loop key rest value ((item_key, item_value) # its) modified_data
       value_must_be_created =
     (if py_eq key item_key
      then (case Query_set rest value item_value of
              Inl e \<Rightarrow> Inl e
            | Inr item_value' \<Rightarrow>
                set_loop key rest value its (modified_data @ [(item_key, item_value')])
                  False)
      else set_loop key rest value its (modified_data @ [(item_key, item_value)])
             value_must_be_created)"
  by pat_completeness auto
termination
  by (relation "measure (\<lambda>x. case x of
        Inl (sel, v, s) \<Rightarrow> 2 * length sel + vsize s
      | Inr (k, rest, v, its, md, c) \<Rightarrow> 2 * length rest + 2 + vsize_items its)") auto

text \<open>
  \<open>Query._delete\<close>. A selector of length 1 filters the pairs with \<open>key != to_delete\<close>; a
  longer one rebuilds the list, recursing into every pair whose key is equal
  (\<open>delete_loop\<close>). On an object, as in \<open>_set\<close>, the call on \<open>structure[1]\<close> with the same
  selector is the list branch, and the tuple around its result is the object.
\<close>

function Query_delete :: "val list \<Rightarrow> val \<Rightarrow> error + val"
  and delete_loop :: "val \<Rightarrow> val list \<Rightarrow> items \<Rightarrow> items \<Rightarrow> error + items" where
  "Query_delete selector structure =
     (case selector of
        [] \<Rightarrow> Inr structure
      | to_delete # rest \<Rightarrow>
          (case structure of
             VArray its \<Rightarrow>
               (if length selector = 1
                then Inr (VArray (filter (\<lambda>(key, value). \<not> py_eq key to_delete) its))
                else (case delete_loop to_delete rest its [] of
                        Inl e \<Rightarrow> Inl e
                      | Inr modified \<Rightarrow> Inr (VArray modified)))
           | VObject class_name props \<Rightarrow>
               (if length selector = 1
                then Inr (VObject class_name
                            (filter (\<lambda>(key, value). \<not> py_eq key to_delete) props))
                else (case delete_loop to_delete rest props [] of
                        Inl e \<Rightarrow> Inl e
                      | Inr modified \<Rightarrow> Inr (VObject class_name modified)))
           | _ \<Rightarrow> Inl (ValueError ExpectedListOrObject)))"
| "delete_loop to_delete rest [] modified = Inr modified"
| "delete_loop to_delete rest ((key, value) # its) modified =
     (if py_eq key to_delete
      then (case Query_delete rest value of
              Inl e \<Rightarrow> Inl e
            | Inr value' \<Rightarrow> delete_loop to_delete rest its (modified @ [(key, value')]))
      else delete_loop to_delete rest its (modified @ [(key, value)]))"
  by pat_completeness auto
termination
  by (relation "measure (\<lambda>x. case x of
        Inl (sel, s) \<Rightarrow> vsize s
      | Inr (k, rest, its, md) \<Rightarrow> vsize_items its)") auto

subsection \<open>Notions used to state the editor's properties\<close>

text \<open>
  What Set builds for a path that is missing: \<open>fresh_path [k1, ..., kn] v\<close> is the array
  with the single pair \<open>(k1, ...)\<close> whose value is the array with the single pair
  \<open>(k2, ...)\<close>, down to \<open>v\<close>.
\<close>

fun fresh_path :: "val list \<Rightarrow> val \<Rightarrow> val" where
  "fresh_path [] v = v"
| "fresh_path (k # s) v = VArray [(k, fresh_path s v)]"

text \<open>
  How Set with the selector \<open>k # s\<close> and the literal \<open>v\<close> relates a pair \<open>old\<close> of the
  array to the pair \<open>new\<close> at the same place in the result.
\<close>

definition set_pair :: "val \<Rightarrow> val list \<Rightarrow> val \<Rightarrow> val \<times> val \<Rightarrow> val \<times> val \<Rightarrow> bool" where
  "set_pair k s v old new =
     (fst new = fst old \<and>
      (if py_eq k (fst old) then Query_set s v (snd old) = Inr (snd new)
       else snd new = snd old))"

text \<open>
  How Delete with the selector \<open>k # s\<close>, \<open>s\<close> not empty, relates a pair \<open>old\<close> of the
  array to the pair \<open>new\<close> at the same place in the result.
\<close>

definition delete_pair :: "val \<Rightarrow> val list \<Rightarrow> val \<times> val \<Rightarrow> val \<times> val \<Rightarrow> bool" where
  "delete_pair k s old new =
     (fst new = fst old \<and>
      (if py_eq (fst old) k then Query_delete s (snd old) = Inr (snd new)
       else snd new = snd old))"

text \<open>
  From the spec's words, for comparison with \<open>Query_set\<close> (section 4.4, Set with a
  selector of one segment on an array): replace the value of the first pair whose key
  matches by the literal; append the pair when no key matches.
\<close>

fun spec_replace_first :: "val \<Rightarrow> val \<Rightarrow> items \<Rightarrow> items" where
  "spec_replace_first k v [] = [(k, v)]"
| "spec_replace_first k v ((item_key, item_value) # its) =
     (if py_eq k item_key then (item_key, v) # its
      else (item_key, item_value) # spec_replace_first k v its)"

definition spec_Set_one :: "val \<Rightarrow> val \<Rightarrow> items \<Rightarrow> error + val" where
  "spec_Set_one k v its = Inr (VArray (spec_replace_first k v its))"

section \<open>Constants of the module\<close>

abbreviation PHP_STRING :: bytes where "PHP_STRING \<equiv> ''s''"
abbreviation PHP_INT :: bytes where "PHP_INT \<equiv> ''i''"
abbreviation PHP_BOOL :: bytes where "PHP_BOOL \<equiv> ''b''"
abbreviation PHP_NULL :: bytes where "PHP_NULL \<equiv> ''N''"
abbreviation PHP_ARRAY :: bytes where "PHP_ARRAY \<equiv> ''a''"
abbreviation PHP_OBJECT :: bytes where "PHP_OBJECT \<equiv> ''O''"
abbreviation PHP_DECIMAL :: bytes where "PHP_DECIMAL \<equiv> ''d''"
abbreviation PHP_FIELD_SEPARATOR :: bytes where "PHP_FIELD_SEPARATOR \<equiv> '':''"
abbreviation PHP_END_VALUE :: bytes where "PHP_END_VALUE \<equiv> '';''"
abbreviation PHP_START_ARRAY :: bytes where "PHP_START_ARRAY \<equiv> ''{''"
abbreviation PHP_END_ARRAY :: bytes where "PHP_END_ARRAY \<equiv> ''}''"
abbreviation PHP_STRING_DELIMITER :: bytes where "PHP_STRING_DELIMITER \<equiv> [CHR 0x22]"

abbreviation MINUS :: bytes where "MINUS \<equiv> ''-''"
abbreviation DIGIT_NINE :: bytes where "DIGIT_NINE \<equiv> ''9''"
abbreviation DIGIT_ZERO :: bytes where "DIGIT_ZERO \<equiv> ''0''"
abbreviation DECIMAL_DOT :: bytes where "DECIMAL_DOT \<equiv> ''.''"
abbreviation EMPTY :: bytes where "EMPTY \<equiv> []"

abbreviation QUERY_START_STRING :: bytes where "QUERY_START_STRING \<equiv> [CHR 0x22]"
abbreviation QUERY_END_STRING :: bytes where "QUERY_END_STRING \<equiv> [CHR 0x22]"
abbreviation QUERY_ESCAPE :: bytes where "QUERY_ESCAPE \<equiv> [CHR 0x5C]"
abbreviation QUERY_EQUAL :: bytes where "QUERY_EQUAL \<equiv> ''=''"
abbreviation QUERY_PATH_SEPARATOR :: bytes where "QUERY_PATH_SEPARATOR \<equiv> ''/''"
abbreviation QUERY_GET :: bytes where "QUERY_GET \<equiv> ''G''"
abbreviation QUERY_SET :: bytes where "QUERY_SET \<equiv> ''S''"
abbreviation QUERY_DELETE :: bytes where "QUERY_DELETE \<equiv> ''D''"
abbreviation QUERY_COMMAND_SEPARATOR :: bytes where "QUERY_COMMAND_SEPARATOR \<equiv> '':''"
abbreviation QUERY_START_ARRAY :: bytes where "QUERY_START_ARRAY \<equiv> ''[''"
abbreviation QUERY_END_ARRAY :: bytes where "QUERY_END_ARRAY \<equiv> '']''"
abbreviation QUERY_START_OBJECT :: bytes where "QUERY_START_OBJECT \<equiv> ''{''"
abbreviation QUERY_END_OBJECT :: bytes where "QUERY_END_OBJECT \<equiv> ''}''"
abbreviation QUERY_KEY_VALUE_SEPARATOR :: bytes where "QUERY_KEY_VALUE_SEPARATOR \<equiv> '':''"
abbreviation QUERY_ITEM_SEPARATOR :: bytes where "QUERY_ITEM_SEPARATOR \<equiv> '',''"
abbreviation QUERY_TRUE :: bytes where "QUERY_TRUE \<equiv> ''true''"
abbreviation QUERY_FALSE :: bytes where "QUERY_FALSE \<equiv> ''false''"
abbreviation QUERY_NULL :: bytes where "QUERY_NULL \<equiv> ''null''"

section \<open>Python built-ins on bytes and integers\<close>

text \<open>
  A slice \<open>xs[a:b]\<close>: a negative index counts from the end, and both indices are clipped
  to the sequence.
\<close>

definition slice_index :: "nat \<Rightarrow> int \<Rightarrow> nat" where
  "slice_index n i = (if i < 0 then nat (int n + i) else min n (nat i))"

definition py_slice :: "bytes \<Rightarrow> int \<Rightarrow> int \<Rightarrow> bytes" where
  "py_slice xs a b =
     (let lo = slice_index (length xs) a; hi = slice_index (length xs) b
      in take (hi - lo) (drop lo xs))"

text \<open>\<open>xs.find(sep)\<close>: the index of the first occurrence of \<open>sep\<close> in \<open>xs\<close>.\<close>

fun find_bytes :: "bytes \<Rightarrow> bytes \<Rightarrow> nat option" where
  "find_bytes sep [] = (if sep = [] then Some 0 else None)"
| "find_bytes sep (x # xs) =
     (if take (length sep) (x # xs) = sep then Some 0
      else map_option Suc (find_bytes sep xs))"

text \<open>
  \<open>xs.split(sep, 1)\<close>: at most one split, at the first occurrence of \<open>sep\<close>; an empty
  separator raises ValueError.
\<close>

definition split_once :: "bytes \<Rightarrow> bytes \<Rightarrow> error + bytes list" where
  "split_once sep xs =
     (if sep = [] then Inl (ValueError EmptySeparator)
      else (case find_bytes sep xs of
              None \<Rightarrow> Inr [xs]
            | Some i \<Rightarrow> Inr [take i xs, drop (i + length sep) xs]))"

text \<open>
  \<open>str(i)\<close> for an \<open>int\<close>, as ASCII bytes. (CPython refuses conversions between \<open>int\<close>
  and text of more than \<open>sys.get_int_max_str_digits()\<close> digits, 4300 by default; that
  limit of the interpreter is not part of the model.)
\<close>

definition digit_char :: "nat \<Rightarrow> char" where
  "digit_char d = char_of (48 + d)"

fun digits :: "nat \<Rightarrow> bytes" where
  "digits n = (if n < 10 then [digit_char n] else digits (n div 10) @ [digit_char (n mod 10)])"

definition str_int :: "int \<Rightarrow> bytes" where
  "str_int i = (if i < 0 then CHR ''-'' # digits (nat (- i)) else digits (nat i))"

text \<open>
  \<open>int(b)\<close> for \<open>bytes\<close>, base 10: white space around the literal is skipped, a sign
  \<open>+\<close> or \<open>-\<close> may come first, the digits may be grouped by single underscores between
  digits, leading zeros are allowed. Anything else raises ValueError (\<open>None\<close> here).
\<close>

definition is_space :: "char \<Rightarrow> bool" where
  "is_space c = (c \<in> set [CHR '' '', CHR 0x09, CHR 0x0A, CHR 0x0B, CHR 0x0C, CHR 0x0D])"

definition is_digit :: "char \<Rightarrow> bool" where
  "is_digit c = (48 \<le> (of_char c :: nat) \<and> (of_char c :: nat) \<le> 57)"

definition digit_value :: "char \<Rightarrow> nat" where
  "digit_value c = of_char c - 48"

fun scan_digits :: "nat \<Rightarrow> bytes \<Rightarrow> (nat \<times> bytes) option" where
  "scan_digits acc [] = Some (acc, [])"
| "scan_digits acc (c # cs) =
     (if is_digit c then scan_digits (10 * acc + digit_value c) cs
      else if c = CHR ''_'' then
        (case cs of
           [] \<Rightarrow> None
         | d # ds \<Rightarrow>
             if is_digit d then scan_digits (10 * acc + digit_value d) ds else None)
      else Some (acc, c # cs))"

definition py_int :: "bytes \<Rightarrow> int option" where
  "py_int b =
     (let s = dropWhile is_space b;
          negative = (take 1 s = ''-'');
          s = (if take 1 s = ''-'' \<or> take 1 s = ''+'' then drop 1 s else s)
      in case s of
           [] \<Rightarrow> None
         | d # ds \<Rightarrow>
             if is_digit d
             then (case scan_digits (digit_value d) ds of
                     None \<Rightarrow> None
                   | Some (n, rest) \<Rightarrow>
                       if dropWhile is_space rest = []
                       then Some (if negative then - int n else int n)
                       else None)
             else None)"

definition int_of_bytes :: "bytes \<Rightarrow> error + int" where
  "int_of_bytes b =
     (case py_int b of None \<Rightarrow> Inl (ValueError (InvalidLiteralForInt b)) | Some i \<Rightarrow> Inr i)"

text \<open>
  \<open>float(b)\<close> is a parameter \<open>fl\<close> of the functions below (\<open>None\<close> where Python raises
  ValueError).
\<close>

definition float_of_bytes :: "(bytes \<Rightarrow> pyfloat option) \<Rightarrow> bytes \<Rightarrow> error + pyfloat" where
  "float_of_bytes fl b =
     (case fl b of None \<Rightarrow> Inl (ValueError (CouldNotConvertToFloat b)) | Some f \<Rightarrow> Inr f)"

text \<open>Lexicographic \<open>\<le>\<close> on bytes.\<close>

fun bytes_le :: "bytes \<Rightarrow> bytes \<Rightarrow> bool" where
  "bytes_le [] ys = True"
| "bytes_le (x # xs) [] = False"
| "bytes_le (x # xs) (y # ys) =
     ((of_char x :: nat) < of_char y \<or> (x = y \<and> bytes_le xs ys))"

text \<open>Sequencing of steps that may raise: the first error ends the computation.\<close>

definition bind :: "error + 'a \<Rightarrow> ('a \<Rightarrow> error + 'b) \<Rightarrow> error + 'b" where
  "bind r f = (case r of Inl e \<Rightarrow> Inl e | Inr x \<Rightarrow> f x)"

lemma bind_cong [fundef_cong]:
  "r = r' \<Longrightarrow> (\<And>x. r' = Inr x \<Longrightarrow> f x = f' x) \<Longrightarrow> bind r f = bind r' f'"
  by (cases r') (simp_all add: bind_def)

section \<open>The byte cursor\<close>

text \<open>
  The class \<open>Parser\<close>: the data and the position in it. \<open>chunk\<close> is the slice
  \<open>data[current:current+length]\<close>; \<open>read_until\<close> unpacks the result of \<open>split\<close> into two
  names, which raises ValueError when \<open>split\<close> gives one part; \<open>read_bytes\<close> moves by the
  length of what it has read; \<open>read_must\<close> raises ParseError on too few bytes and on
  other bytes than expected.
\<close>

record parser =
  data :: bytes
  current :: nat

definition reset :: "bytes \<Rightarrow> parser" where
  "reset d = \<lparr>data = d, current = 0\<rparr>"

definition end_of_data :: "parser \<Rightarrow> bool" where
  "end_of_data p = (current p \<ge> length (data p))"

definition next_byte :: "nat \<Rightarrow> parser \<Rightarrow> parser" where
  "next_byte increment p = p\<lparr>current := current p + increment\<rparr>"

definition chunk :: "int \<Rightarrow> parser \<Rightarrow> bytes" where
  "chunk len p = py_slice (data p) (int (current p)) (int (current p) + len)"

definition read_until :: "bytes \<Rightarrow> parser \<Rightarrow> error + (bytes \<times> parser)" where
  "read_until stop p =
     bind (split_once stop (drop (current p) (data p))) (\<lambda>parts.
       case parts of
         [before_stop, rest] \<Rightarrow> Inr (before_stop, next_byte (length before_stop) p)
       | _ \<Rightarrow> Inl (ValueError NotEnoughValuesToUnpack))"

definition read_bytes :: "int \<Rightarrow> parser \<Rightarrow> bytes \<times> parser" where
  "read_bytes len p = (let start = chunk len p in (start, next_byte (length start) p))"

definition read_must :: "bytes \<Rightarrow> parser \<Rightarrow> error + parser" where
  "read_must expected p =
     (if int (length expected) > int (length (data p)) - int (current p)
      then Inl (ParseError (current p) (NotEnoughBytes expected))
      else if chunk (int (length expected)) p \<noteq> expected
      then Inl (ParseError (current p)
                  (ExpectedButAppeared expected (chunk (int (length expected)) p)))
      else Inr (next_byte (length expected) p))"

section \<open>The PHP value codec\<close>

subsection \<open>PHPUnserializer\<close>

text \<open>
  The decoders of the scalar types: \<open>_string_from_bytes\<close>, \<open>_int_from_bytes\<close>,
  \<open>_decimal_from_bytes\<close>, \<open>_bool_from_bytes\<close> and \<open>_null_from_bytes\<close>. Each is the sequence
  of the reads of the source; \<open>int(...)\<close> and \<open>float(...)\<close> raise ValueError on text they
  do not take.
\<close>

definition string_from_bytes :: "parser \<Rightarrow> error + (val \<times> parser)" where
  "string_from_bytes p0 =
     bind (read_must PHP_STRING p0) (\<lambda>p1.
     bind (read_must PHP_FIELD_SEPARATOR p1) (\<lambda>p2.
     bind (read_until PHP_FIELD_SEPARATOR p2) (\<lambda>(raw, p3).
     bind (int_of_bytes raw) (\<lambda>size.
     bind (read_must PHP_FIELD_SEPARATOR p3) (\<lambda>p4.
     bind (read_must PHP_STRING_DELIMITER p4) (\<lambda>p5.
     case read_bytes size p5 of (value, p6) \<Rightarrow>
     bind (read_must PHP_STRING_DELIMITER p6) (\<lambda>p7.
     bind (read_must PHP_END_VALUE p7) (\<lambda>p8.
     Inr (VBytes value, p8)))))))))"

definition int_from_bytes :: "parser \<Rightarrow> error + (val \<times> parser)" where
  "int_from_bytes p0 =
     bind (read_must PHP_INT p0) (\<lambda>p1.
     bind (read_must PHP_FIELD_SEPARATOR p1) (\<lambda>p2.
     bind (read_until PHP_END_VALUE p2) (\<lambda>(raw, p3).
     bind (int_of_bytes raw) (\<lambda>value.
     bind (read_must PHP_END_VALUE p3) (\<lambda>p4.
     Inr (VInt value, p4))))))"

definition decimal_from_bytes ::
  "(bytes \<Rightarrow> pyfloat option) \<Rightarrow> parser \<Rightarrow> error + (val \<times> parser)" where
  "decimal_from_bytes fl p0 =
     bind (read_must PHP_DECIMAL p0) (\<lambda>p1.
     bind (read_must PHP_FIELD_SEPARATOR p1) (\<lambda>p2.
     bind (read_until PHP_END_VALUE p2) (\<lambda>(raw, p3).
     bind (float_of_bytes fl raw) (\<lambda>value.
     bind (read_must PHP_END_VALUE p3) (\<lambda>p4.
     Inr (VFloat value, p4))))))"

definition bool_from_bytes :: "parser \<Rightarrow> error + (val \<times> parser)" where
  "bool_from_bytes p0 =
     bind (read_must PHP_BOOL p0) (\<lambda>p1.
     bind (read_must PHP_FIELD_SEPARATOR p1) (\<lambda>p2.
     bind (read_until PHP_END_VALUE p2) (\<lambda>(raw, p3).
     bind (int_of_bytes raw) (\<lambda>i.
     bind (read_must PHP_END_VALUE p3) (\<lambda>p4.
     Inr (VBool (i \<noteq> 0), p4))))))"

definition null_from_bytes :: "parser \<Rightarrow> error + (val \<times> parser)" where
  "null_from_bytes p0 =
     bind (read_must PHP_NULL p0) (\<lambda>p1.
     bind (read_must PHP_END_VALUE p1) (\<lambda>p2.
     Inr (VNull, p2)))"

text \<open>
  \<open>from_bytes\<close> and the two decoders that call it back. \<open>pairs_from_bytes\<close> is the list
  comprehension \<open>[(self.from_bytes(), self.from_bytes()) for _ in range(size)]\<close>;
  \<open>range\<close> of a negative number is empty. The first argument bounds the depth of nested
  \<open>from_bytes\<close> calls, as the interpreter's recursion limit does: beyond it Python raises
  RecursionError.
\<close>

fun from_bytes :: "nat \<Rightarrow> (bytes \<Rightarrow> pyfloat option) \<Rightarrow> parser \<Rightarrow> error + (val \<times> parser)"
  and array_from_bytes ::
    "nat \<Rightarrow> (bytes \<Rightarrow> pyfloat option) \<Rightarrow> parser \<Rightarrow> error + (val \<times> parser)"
  and object_from_bytes ::
    "nat \<Rightarrow> (bytes \<Rightarrow> pyfloat option) \<Rightarrow> parser \<Rightarrow> error + (val \<times> parser)"
  and pairs_from_bytes ::
    "nat \<Rightarrow> (bytes \<Rightarrow> pyfloat option) \<Rightarrow> nat \<Rightarrow> parser \<Rightarrow> error + (items \<times> parser)" where
  "from_bytes 0 fl p = Inl RecursionError"
| "from_bytes (Suc depth) fl p =
     (let php_type = chunk 1 p in
      if php_type = PHP_STRING then string_from_bytes p
      else if php_type = PHP_INT then int_from_bytes p
      else if php_type = PHP_BOOL then bool_from_bytes p
      else if php_type = PHP_NULL then null_from_bytes p
      else if php_type = PHP_ARRAY then array_from_bytes depth fl p
      else if php_type = PHP_DECIMAL then decimal_from_bytes fl p
      else if php_type = PHP_OBJECT then object_from_bytes depth fl p
      else Inl (ParseError (current p) (UnknownType php_type)))"
| "array_from_bytes depth fl p0 =
     bind (read_must PHP_ARRAY p0) (\<lambda>p1.
     bind (read_must PHP_FIELD_SEPARATOR p1) (\<lambda>p2.
     bind (read_until PHP_FIELD_SEPARATOR p2) (\<lambda>(raw, p3).
     bind (int_of_bytes raw) (\<lambda>size.
     bind (read_must PHP_FIELD_SEPARATOR p3) (\<lambda>p4.
     bind (read_must PHP_START_ARRAY p4) (\<lambda>p5.
     bind (pairs_from_bytes depth fl (nat size) p5) (\<lambda>(array, p6).
     bind (read_must PHP_END_ARRAY p6) (\<lambda>p7.
     Inr (VArray array, p7)))))))))"
| "object_from_bytes depth fl p0 =
     bind (read_must PHP_OBJECT p0) (\<lambda>p1.
     bind (read_must PHP_FIELD_SEPARATOR p1) (\<lambda>p2.
     bind (read_until PHP_FIELD_SEPARATOR p2) (\<lambda>(raw, p3).
     bind (int_of_bytes raw) (\<lambda>size.
     bind (read_must PHP_FIELD_SEPARATOR p3) (\<lambda>p4.
     bind (read_must PHP_STRING_DELIMITER p4) (\<lambda>p5.
     case read_bytes size p5 of (class_name, p6) \<Rightarrow>
     bind (read_must PHP_STRING_DELIMITER p6) (\<lambda>p7.
     bind (read_must PHP_FIELD_SEPARATOR p7) (\<lambda>p8.
     bind (read_until PHP_FIELD_SEPARATOR p8) (\<lambda>(raw', p9).
     bind (int_of_bytes raw') (\<lambda>count.
     bind (read_must PHP_FIELD_SEPARATOR p9) (\<lambda>p10.
     bind (read_must PHP_START_ARRAY p10) (\<lambda>p11.
     bind (pairs_from_bytes depth fl (nat count) p11) (\<lambda>(props, p12).
     bind (read_must PHP_END_ARRAY p12) (\<lambda>p13.
     Inr (VObject class_name props, p13)))))))))))))))"
| "pairs_from_bytes depth fl 0 p = Inr ([], p)"
| "pairs_from_bytes depth fl (Suc n) p0 =
     bind (from_bytes depth fl p0) (\<lambda>(key, p1).
     bind (from_bytes depth fl p1) (\<lambda>(value, p2).
     bind (pairs_from_bytes depth fl n p2) (\<lambda>(rest, p3).
     Inr ((key, value) # rest, p3))))"

subsection \<open>PHPSerializer\<close>

text \<open>
  \<open>to_bytes\<close> tests the type of its object in the order \<open>bytes\<close>, \<open>bool\<close>, \<open>int\<close>,
  \<open>float\<close>, \<open>list\<close>, \<open>is_object\<close> and raises SerializeError on anything else; there is
  no test for \<open>None\<close>. \<open>items_to_bytes\<close> is the list comprehension inside \<open>EMPTY.join\<close>.
  \<open>str(x)\<close> for a float \<open>x\<close> is the parameter \<open>fs\<close>.
\<close>

function to_bytes :: "(pyfloat \<Rightarrow> bytes) \<Rightarrow> val \<Rightarrow> error + bytes"
  and items_to_bytes :: "(pyfloat \<Rightarrow> bytes) \<Rightarrow> items \<Rightarrow> error + bytes" where
  "to_bytes fs (VBytes d) =
     Inr (PHP_STRING @ PHP_FIELD_SEPARATOR @ str_int (int (length d)) @ PHP_FIELD_SEPARATOR
          @ PHP_STRING_DELIMITER @ d @ PHP_STRING_DELIMITER @ PHP_END_VALUE)"
| "to_bytes fs (VBool b) =
     Inr (PHP_BOOL @ PHP_FIELD_SEPARATOR @ str_int (if b then 1 else 0) @ PHP_END_VALUE)"
| "to_bytes fs (VInt i) =
     Inr (PHP_INT @ PHP_FIELD_SEPARATOR @ str_int i @ PHP_END_VALUE)"
| "to_bytes fs (VFloat f) =
     Inr (PHP_DECIMAL @ PHP_FIELD_SEPARATOR @ fs f @ PHP_END_VALUE)"
| "to_bytes fs (VArray its) =
     bind (items_to_bytes fs its) (\<lambda>body.
     Inr (PHP_ARRAY @ PHP_FIELD_SEPARATOR @ str_int (int (length its)) @ PHP_FIELD_SEPARATOR
          @ PHP_START_ARRAY @ body @ PHP_END_ARRAY))"
| "to_bytes fs (VObject class_name properties) =
     bind (items_to_bytes fs properties) (\<lambda>body.
     Inr (PHP_OBJECT @ PHP_FIELD_SEPARATOR @ str_int (int (length class_name))
          @ PHP_FIELD_SEPARATOR @ PHP_STRING_DELIMITER @ class_name @ PHP_STRING_DELIMITER
          @ PHP_FIELD_SEPARATOR @ str_int (int (length properties)) @ PHP_FIELD_SEPARATOR
          @ PHP_START_ARRAY @ body @ PHP_END_ARRAY))"
| "to_bytes fs VNull = Inl (SerializeError VNull)"
| "to_bytes fs (VHostStr s) = Inl (SerializeError (VHostStr s))"
| "items_to_bytes fs [] = Inr EMPTY"
| "items_to_bytes fs ((key, value) # its) =
     bind (to_bytes fs key) (\<lambda>k.
     bind (to_bytes fs value) (\<lambda>v.
     bind (items_to_bytes fs its) (\<lambda>rest.
     Inr (k @ v @ rest))))"
  by pat_completeness auto
termination
  by (relation "measure (\<lambda>x. case x of Inl (fs, v) \<Rightarrow> vsize v
                                | Inr (fs, its) \<Rightarrow> vsize_items its)") auto

subsection \<open>The entry points\<close>

definition php_serialize :: "(pyfloat \<Rightarrow> bytes) \<Rightarrow> val \<Rightarrow> error + bytes" where
  "php_serialize fs value = to_bytes fs value"

definition php_unserialize :: "nat \<Rightarrow> (bytes \<Rightarrow> pyfloat option) \<Rightarrow> bytes \<Rightarrow> error + val" where
  "php_unserialize depth fl d = bind (from_bytes depth fl (reset d)) (\<lambda>(value, p). Inr value)"

subsection \<open>Notions used to state the codec's properties\<close>

text \<open>
  The depth of \<open>from_bytes\<close> calls that decoding a value takes, and the floats in a value.
  \<open>floats_ok fl fs xs\<close>: on each float of \<open>xs\<close>, \<open>float(str(x))\<close> gives \<open>x\<close> back and
  \<open>str(x)\<close> has no \<open>;\<close> in it.
\<close>

function (sequential) nesting :: "val \<Rightarrow> nat" and nesting_items :: "items \<Rightarrow> nat" where
  "nesting (VArray its) = Suc (nesting_items its)"
| "nesting (VObject n its) = Suc (nesting_items its)"
| "nesting _ = 1"
| "nesting_items [] = 0"
| "nesting_items ((k, v) # its) = max (max (nesting k) (nesting v)) (nesting_items its)"
  by pat_completeness auto
termination
  by (relation "measure (\<lambda>x. case x of Inl v \<Rightarrow> vsize v
                                | Inr its \<Rightarrow> vsize_items its)") auto

function (sequential) floats_of :: "val \<Rightarrow> pyfloat list"
  and floats_of_items :: "items \<Rightarrow> pyfloat list" where
  "floats_of (VFloat f) = [f]"
| "floats_of (VArray its) = floats_of_items its"
| "floats_of (VObject n its) = floats_of_items its"
| "floats_of _ = []"
| "floats_of_items [] = []"
| "floats_of_items ((k, v) # its) = floats_of k @ floats_of v @ floats_of_items its"
  by pat_completeness auto
termination
  by (relation "measure (\<lambda>x. case x of Inl v \<Rightarrow> vsize v
                                | Inr its \<Rightarrow> vsize_items its)") auto

definition floats_ok :: "(bytes \<Rightarrow> pyfloat option) \<Rightarrow> (pyfloat \<Rightarrow> bytes) \<Rightarrow> pyfloat list \<Rightarrow> bool" where
  "floats_ok fl fs fs' = (\<forall>f\<in>set fs'. fl (fs f) = Some f \<and> CHR '';'' \<notin> set (fs f))"

text \<open>The values that hold no \<open>Null\<close> and no foreign object.\<close>

function (sequential) encodable :: "val \<Rightarrow> bool" and encodable_items :: "items \<Rightarrow> bool" where
  "encodable VNull = False"
| "encodable (VHostStr s) = False"
| "encodable (VArray its) = encodable_items its"
| "encodable (VObject class_name its) = encodable_items its"
| "encodable _ = True"
| "encodable_items [] = True"
| "encodable_items ((k, v) # its) = (encodable k \<and> encodable v \<and> encodable_items its)"
  by pat_completeness auto
termination
  by (relation "measure (\<lambda>x. case x of Inl v \<Rightarrow> vsize v
                                | Inr its \<Rightarrow> vsize_items its)") auto

text \<open>The input that is left: \<open>data[current:]\<close>.\<close>

definition remaining :: "parser \<Rightarrow> bytes" where
  "remaining p = drop (current p) (data p)"

section \<open>Facts on the byte cursor\<close>

lemma bind_Inr [simp]: "bind (Inr x) f = f x"
  by (simp add: bind_def)

lemma bind_Inl [simp]: "bind (Inl e) f = Inl e"
  by (simp add: bind_def)

lemma remaining_next_byte [simp]: "remaining (next_byte k p) = drop k (remaining p)"
  by (simp add: remaining_def next_byte_def add.commute)

lemma data_next_byte [simp]: "data (next_byte k p) = data p"
  by (simp add: next_byte_def)

lemma current_next_byte [simp]: "current (next_byte k p) = current p + k"
  by (simp add: next_byte_def)

lemma next_byte_next_byte: "next_byte a (next_byte b p) = next_byte (b + a) p"
  by (simp add: next_byte_def add.assoc)

lemma next_byte_0 [simp]: "next_byte 0 p = p"
  by (simp add: next_byte_def)

lemma chunk_nonneg: "0 \<le> len \<Longrightarrow> chunk len p = take (nat len) (remaining p)"
proof -
  assume len: "0 \<le> len"
  define n where "n = length (data p)"
  define c where "c = current p"
  define l where "l = nat len"
  have lo: "slice_index n (int c) = min n c"
    by (simp add: slice_index_def)
  have "int c + len = int (c + l)" using len by (simp add: l_def)
  then have hi: "slice_index n (int c + len) = min n (c + l)"
    by (simp add: slice_index_def)
  have "take (min n (c + l) - min n c) (drop (min n c) (data p)) = take l (drop c (data p))"
  proof (cases "c < n")
    case True
    then have "min n (c + l) - min n c = min (n - c) l" by arith
    moreover have "length (drop c (data p)) = n - c" by (simp add: n_def)
    ultimately show ?thesis using True by (simp add: min_def)
  next
    case False
    then show ?thesis by (simp add: n_def min_def)
  qed
  then show ?thesis
    unfolding chunk_def py_slice_def Let_def remaining_def
    using lo hi by (simp add: n_def c_def l_def)
qed

lemma chunk_1 [simp]: "chunk 1 p = take 1 (remaining p)"
  using chunk_nonneg [of 1 p] by simp

lemma read_must_ok:
  "remaining p = e @ r \<Longrightarrow> e \<noteq> [] \<Longrightarrow> read_must e p = Inr (next_byte (length e) p)"
proof -
  assume r: "remaining p = e @ r" and ne: "e \<noteq> []"
  have "length (remaining p) = length (data p) - current p"
    by (simp add: remaining_def)
  with r have le: "length e \<le> length (data p) - current p" by simp
  moreover from ne have "0 < length e" by simp
  ultimately have a: "\<not> int (length e) > int (length (data p)) - int (current p)"
    by linarith
  have b: "chunk (int (length e)) p = e" using r by (simp add: chunk_nonneg)
  show ?thesis unfolding read_must_def using a b by simp
qed

lemma read_bytes_ok:
  "remaining p = d @ r \<Longrightarrow> read_bytes (int (length d)) p = (d, next_byte (length d) p)"
  by (simp add: read_bytes_def chunk_nonneg)

lemma find_bytes_Some:
  "find_bytes sep xs = Some i \<Longrightarrow>
     i + length sep \<le> length xs \<and> take (length sep) (drop i xs) = sep \<and>
     (\<forall>j<i. take (length sep) (drop j xs) \<noteq> sep)"
proof (induction xs arbitrary: i)
  case Nil
  then show ?case by (auto split: if_splits)
next
  case (Cons x xs)
  show ?case
  proof (cases "take (length sep) (x # xs) = sep")
    case True
    with Cons.prems have "i = 0" by simp
    moreover have "length sep \<le> length (x # xs)"
    proof -
      have "length (take (length sep) (x # xs)) = length sep" using True by simp
      then show ?thesis by simp
    qed
    ultimately show ?thesis using True by simp
  next
    case False
    with Cons.prems obtain i' where i': "find_bytes sep xs = Some i'" "i = Suc i'"
      by auto
    from Cons.IH [OF i'(1)] False i'(2) show ?thesis
      by (auto simp: less_Suc_eq_0_disj)
  qed
qed

lemma find_bytes_None:
  "find_bytes sep xs = None \<Longrightarrow> (\<forall>j\<le>length xs. take (length sep) (drop j xs) \<noteq> sep)"
proof (induction xs)
  case Nil
  then show ?case by (auto split: if_splits)
next
  case (Cons x xs)
  then have a: "take (length sep) (x # xs) \<noteq> sep" and b: "find_bytes sep xs = None"
    by (auto split: if_splits)
  show ?case
  proof (intro allI impI)
    fix j assume "j \<le> length (x # xs)"
    with Cons.IH [OF b] a show "take (length sep) (drop j (x # xs)) \<noteq> sep"
      by (cases j) auto
  qed
qed

lemma read_until_eq:
  "stop \<noteq> [] \<Longrightarrow>
   read_until stop p =
     (case find_bytes stop (remaining p) of
        None \<Rightarrow> Inl (ValueError NotEnoughValuesToUnpack)
      | Some i \<Rightarrow> Inr (take i (remaining p), next_byte i p))"
proof (cases "find_bytes stop (remaining p)")
  case None
  assume "stop \<noteq> []"
  with None show ?thesis
    by (simp add: read_until_def split_once_def remaining_def)
next
  case (Some i)
  assume ne: "stop \<noteq> []"
  from find_bytes_Some [OF Some] have "i \<le> length (remaining p)" by simp
  then have "length (take i (remaining p)) = i" by simp
  with Some ne show ?thesis
    by (simp add: read_until_def split_once_def remaining_def)
qed

lemma find_bytes_single:
  "c \<notin> set b \<Longrightarrow> find_bytes [c] (b @ c # r) = Some (length b)"
  by (induction b) auto

lemma read_until_ok:
  "remaining p = b @ c # r \<Longrightarrow> c \<notin> set b \<Longrightarrow>
     read_until [c] p = Inr (b, next_byte (length b) p)"
  by (simp add: read_until_eq find_bytes_single)

lemma bind_eq_Inr: "bind r f = Inr y \<longleftrightarrow> (\<exists>x. r = Inr x \<and> f x = Inr y)"
  by (cases r) simp_all

lemma read_must_take:
  "take (length e) (remaining p) = e \<Longrightarrow> e \<noteq> [] \<Longrightarrow>
     read_must e p = Inr (next_byte (length e) p)"
  using read_must_ok [of p e "drop (length e) (remaining p)"]
  by (metis append_take_drop_id)

lemma read_bytes_take:
  "read_bytes (int n) p =
     (take n (remaining p), next_byte (length (take n (remaining p))) p)"
  by (simp add: read_bytes_def chunk_nonneg)

lemma read_until_single:
  "find_bytes [c] (remaining p) = Some n \<Longrightarrow>
     read_until [c] p = Inr (take n (remaining p), next_byte n p)"
  by (simp add: read_until_eq)

section \<open>The path expression parser\<close>

text \<open>
  \<open>is_valid_int_start\<close>: the chained comparison \<open>DIGIT_ZERO <= data <= DIGIT_NINE\<close> is
  the lexicographic order of \<open>bytes\<close>.
\<close>

definition is_valid_int_start :: "bytes \<Rightarrow> bool" where
  "is_valid_int_start d = ((bytes_le DIGIT_ZERO d \<and> bytes_le d DIGIT_NINE) \<or> d = MINUS)"

text \<open>
  \<open>Query._parse_string\<close>. \<open>string_loop\<close> is its \<open>while not self.end_of_data()\<close> loop with
  the variables \<open>escaping\<close> and \<open>string\<close>, and the two \<open>raise\<close> after the loop. Every turn
  of the loop that does not return moves the cursor by one byte, which is why it ends.
\<close>

lemma length_chunk_1: "\<not> end_of_data p \<Longrightarrow> length (chunk 1 p) = 1"
  by (simp add: end_of_data_def remaining_def)

lemma read_bytes_1_current:
  "\<not> end_of_data p \<Longrightarrow> current (snd (read_bytes 1 p)) = Suc (current p)"
  using length_chunk_1 [of p] by (simp add: read_bytes_def Let_def)

lemma read_bytes_data [simp]: "data (snd (read_bytes n p)) = data p"
  by (simp add: read_bytes_def Let_def)

function string_loop :: "bool \<Rightarrow> bytes \<Rightarrow> parser \<Rightarrow> error + (bytes \<times> parser)" where
  "string_loop escaping string p =
     (if \<not> end_of_data p then
        if escaping then
          string_loop False (string @ fst (read_bytes 1 p)) (snd (read_bytes 1 p))
        else if chunk 1 p = QUERY_ESCAPE then
          string_loop True string (next_byte 1 p)
        else if chunk 1 p = QUERY_END_STRING then
          bind (read_must QUERY_END_STRING p) (\<lambda>p'. Inr (string, p'))
        else
          string_loop escaping (string @ fst (read_bytes 1 p)) (snd (read_bytes 1 p))
      else if escaping then Inl (ParseError (current p) IncompleteEscape)
      else Inl (ParseError (current p) UnterminatedString))"
  by pat_completeness auto
termination
  by (relation "measure (\<lambda>(e, s, p). length (data p) - current p)")
    (auto simp: read_bytes_1_current end_of_data_def)

declare string_loop.simps [simp del]

definition parse_string :: "parser \<Rightarrow> error + (bytes \<times> parser)" where
  "parse_string p = bind (read_must QUERY_START_STRING p) (\<lambda>p1. string_loop False EMPTY p1)"

text \<open>
  \<open>Query._parse_number\<close>. Its two \<open>while\<close> loops are the same loop, \<open>number_loop\<close>: add
  digits to \<open>number_string\<close> until the input ends or a byte is not a digit.
\<close>

function number_loop :: "bytes \<Rightarrow> parser \<Rightarrow> bytes \<times> parser" where
  "number_loop number_string p =
     (if \<not> end_of_data p then
        if \<not> (bytes_le DIGIT_ZERO (chunk 1 p) \<and> bytes_le (chunk 1 p) DIGIT_NINE)
        then (number_string, p)
        else number_loop (number_string @ chunk 1 p) (next_byte 1 p)
      else (number_string, p))"
  by pat_completeness auto
termination
  by (relation "measure (\<lambda>(s, p). length (data p) - current p)")
    (auto simp: end_of_data_def)

declare number_loop.simps [simp del]

definition parse_number ::
  "(bytes \<Rightarrow> pyfloat option) \<Rightarrow> parser \<Rightarrow> error + (val \<times> parser)" where
  "parse_number fl p0 =
     (case (if chunk 1 p0 = MINUS then (MINUS, next_byte 1 p0) else (EMPTY, p0)) of
        (sign, p1) \<Rightarrow>
     case number_loop sign p1 of (number_string, p2) \<Rightarrow>
       if number_string = EMPTY then Inl (ParseError (current p2) ExpectedDigit)
       else if chunk 1 p2 \<noteq> DECIMAL_DOT then
         bind (int_of_bytes number_string) (\<lambda>i. Inr (VInt i, p2))
       else
         case number_loop (number_string @ DECIMAL_DOT) (next_byte 1 p2) of
           (number_string', p3) \<Rightarrow>
             bind (float_of_bytes fl number_string') (\<lambda>f. Inr (VFloat f, p3)))"

text \<open>\<open>Query._parse_true\<close>, \<open>_parse_false\<close> and \<open>_parse_null\<close>; \<open>None\<close> is \<open>VNull\<close>.\<close>

definition parse_true :: "parser \<Rightarrow> error + (val \<times> parser)" where
  "parse_true p = bind (read_must QUERY_TRUE p) (\<lambda>p'. Inr (VBool True, p'))"

definition parse_false :: "parser \<Rightarrow> error + (val \<times> parser)" where
  "parse_false p = bind (read_must QUERY_FALSE p) (\<lambda>p'. Inr (VBool False, p'))"

definition parse_null :: "parser \<Rightarrow> error + (val \<times> parser)" where
  "parse_null p = bind (read_must QUERY_NULL p) (\<lambda>p'. Inr (VNull, p'))"

subsection \<open>Progress of the parsers\<close>

text \<open>
  What the termination proofs of the loops over parsed items need: a parser that returns
  leaves the data alone and moves the cursor forward (\<open>advances\<close>: by at least one byte
  and not beyond the end; \<open>not_behind\<close>: possibly by none).
\<close>

definition advances :: "parser \<Rightarrow> parser \<Rightarrow> bool" where
  "advances p p' = (data p' = data p \<and> current p < current p' \<and> current p' \<le> length (data p))"

definition not_behind :: "parser \<Rightarrow> parser \<Rightarrow> bool" where
  "not_behind p p' = (data p' = data p \<and> current p \<le> current p' \<and>
     (current p \<le> length (data p) \<longrightarrow> current p' \<le> length (data p)))"

lemma adv_mono: "advances p p' \<Longrightarrow> not_behind p p'"
  by (simp add: advances_def not_behind_def)

lemma mono_refl [simp]: "not_behind p p"
  by (simp add: not_behind_def)

lemma mono_trans: "not_behind p q \<Longrightarrow> not_behind q r \<Longrightarrow> not_behind p r"
  by (auto simp: not_behind_def)

lemma adv_mono_trans: "advances p q \<Longrightarrow> not_behind q r \<Longrightarrow> advances p r"
  by (auto simp: advances_def not_behind_def)

lemma mono_adv_trans: "not_behind p q \<Longrightarrow> advances q r \<Longrightarrow> advances p r"
  by (auto simp: advances_def not_behind_def)

lemma read_must_adv:
  "read_must e p = Inr p' \<Longrightarrow> e \<noteq> [] \<Longrightarrow> advances p p'"
  by (auto simp: read_must_def advances_def split: if_splits)

lemma next_byte_adv: "\<not> end_of_data p \<Longrightarrow> advances p (next_byte 1 p)"
  by (auto simp: advances_def end_of_data_def)

lemma read_bytes_1_adv: "\<not> end_of_data p \<Longrightarrow> advances p (snd (read_bytes 1 p))"
  using read_bytes_1_current [of p] by (auto simp: advances_def end_of_data_def)

lemma string_loop_adv:
  "string_loop e s p = Inr (x, p') \<Longrightarrow> advances p p'"
proof (induction e s p rule: string_loop.induct)
  case (1 escaping string p)
  note prem = "1.prems" [unfolded string_loop.simps [of escaping string p]]
  show ?case
  proof (cases "end_of_data p")
    case True
    with prem show ?thesis by (simp split: if_splits)
  next
    case False
    note ne = this
    show ?thesis
    proof (cases escaping)
      case True
      with ne prem have
        "string_loop False (string @ fst (read_bytes 1 p)) (snd (read_bytes 1 p)) = Inr (x, p')"
        by simp
      from "1.IH"(1) [OF ne True this] read_bytes_1_adv [OF ne] show ?thesis
        by (meson adv_mono adv_mono_trans)
    next
      case False
      note nesc = this
      show ?thesis
      proof (cases "chunk 1 p = QUERY_ESCAPE")
        case True
        with ne nesc prem have "string_loop True string (next_byte 1 p) = Inr (x, p')"
          by simp
        from "1.IH"(2) [OF ne nesc True this] next_byte_adv [OF ne] show ?thesis
          by (meson adv_mono adv_mono_trans)
      next
        case False
        note nq = this
        show ?thesis
        proof (cases "chunk 1 p = QUERY_END_STRING")
          case True
          with ne nesc nq prem have "read_must QUERY_END_STRING p = Inr p'"
            by (auto simp: bind_eq_Inr simp del: chunk_1)
          then show ?thesis by (rule read_must_adv) simp
        next
          case False
          with ne nesc nq prem have
            "string_loop escaping (string @ fst (read_bytes 1 p)) (snd (read_bytes 1 p))
               = Inr (x, p')"
            by (simp del: chunk_1)
          from "1.IH"(3) [OF ne nesc nq False this] read_bytes_1_adv [OF ne] show ?thesis
            by (meson adv_mono adv_mono_trans)
        qed
      qed
    qed
  qed
qed

lemma parse_string_adv: "parse_string p = Inr (x, p') \<Longrightarrow> advances p p'"
proof -
  assume "parse_string p = Inr (x, p')"
  then obtain p1 where a: "read_must QUERY_START_STRING p = Inr p1"
    and b: "string_loop False EMPTY p1 = Inr (x, p')"
    by (auto simp: parse_string_def bind_eq_Inr)
  have "advances p p1" by (rule read_must_adv [OF a]) simp
  with string_loop_adv [OF b] show ?thesis
    by (meson adv_mono adv_mono_trans)
qed

lemma number_loop_mono: "number_loop s p = (s', p') \<Longrightarrow> not_behind p p'"
proof (induction s p rule: number_loop.induct)
  case (1 number_string p)
  note prem = "1.prems" [unfolded number_loop.simps [of number_string p]]
  show ?case
  proof (cases "\<not> end_of_data p \<and> bytes_le DIGIT_ZERO (chunk 1 p) \<and> bytes_le (chunk 1 p) DIGIT_NINE")
    case True
    with prem have "number_loop (number_string @ chunk 1 p) (next_byte 1 p) = (s', p')"
      by (simp del: chunk_1)
    with "1.IH" True have "not_behind (next_byte 1 p) p'" by (simp del: chunk_1)
    moreover from True have "advances p (next_byte 1 p)" by (intro next_byte_adv) simp
    ultimately show ?thesis by (meson adv_mono mono_trans)
  next
    case False
    with prem show ?thesis by (auto simp del: chunk_1 split: if_splits)
  qed
qed

lemma number_loop_digit_adv:
  "number_loop s p = (s', p') \<Longrightarrow> \<not> end_of_data p \<Longrightarrow>
     bytes_le DIGIT_ZERO (chunk 1 p) \<and> bytes_le (chunk 1 p) DIGIT_NINE \<Longrightarrow> advances p p'"
proof -
  assume a: "number_loop s p = (s', p')" and ne: "\<not> end_of_data p"
    and d: "bytes_le DIGIT_ZERO (chunk 1 p) \<and> bytes_le (chunk 1 p) DIGIT_NINE"
  from a ne d have "number_loop (s @ chunk 1 p) (next_byte 1 p) = (s', p')"
    unfolding number_loop.simps [of s p] by (simp del: chunk_1)
  from number_loop_mono [OF this] next_byte_adv [OF ne] show ?thesis
    by (meson adv_mono_trans)
qed

lemma chunk_1_end: "end_of_data p \<Longrightarrow> chunk 1 p = []"
  by (simp add: end_of_data_def remaining_def)

lemma parse_number_adv:
  assumes "parse_number fl p = Inr (v, p')" and "is_valid_int_start (chunk 1 p)"
  shows "advances p p'"
proof -
  have ne: "\<not> end_of_data p"
    using assms(2) chunk_1_end [of p] by (auto simp: is_valid_int_start_def simp del: chunk_1)
  define sp where "sp = (if chunk 1 p = MINUS then (MINUS, next_byte 1 p) else (EMPTY, p))"
  obtain sign p1 where sp1: "sp = (sign, p1)" by (cases sp)
  obtain ns p2 where nl: "number_loop sign p1 = (ns, p2)" by (cases "number_loop sign p1")
  have a1: "advances p p2"
  proof (cases "chunk 1 p = MINUS")
    case True
    with sp1 have "p1 = next_byte 1 p" by (simp add: sp_def del: chunk_1)
    with number_loop_mono [OF nl] next_byte_adv [OF ne] show ?thesis
      by (meson adv_mono_trans)
  next
    case False
    with sp1 have p1: "p1 = p" by (simp add: sp_def del: chunk_1)
    from False assms(2) have "bytes_le DIGIT_ZERO (chunk 1 p) \<and> bytes_le (chunk 1 p) DIGIT_NINE"
      by (simp add: is_valid_int_start_def del: chunk_1)
    from number_loop_digit_adv [OF nl [unfolded p1] ne this] show ?thesis .
  qed
  show ?thesis
  proof (cases "ns \<noteq> EMPTY \<and> chunk 1 p2 = DECIMAL_DOT")
    case False
    with assms(1) sp1 nl have "p' = p2"
      unfolding parse_number_def sp_def [symmetric]
      by (auto simp: bind_eq_Inr simp del: chunk_1 split: if_splits)
    with a1 show ?thesis by simp
  next
    case True
    obtain ns' p3 where nl': "number_loop (ns @ DECIMAL_DOT) (next_byte 1 p2) = (ns', p3)"
      by (cases "number_loop (ns @ DECIMAL_DOT) (next_byte 1 p2)")
    with True assms(1) sp1 nl have p': "p' = p3"
      unfolding parse_number_def sp_def [symmetric]
      by (auto simp: bind_eq_Inr simp del: chunk_1 split: if_splits)
    from True chunk_1_end [of p2] have "\<not> end_of_data p2" by (auto simp del: chunk_1)
    from next_byte_adv [OF this] number_loop_mono [OF nl'] a1 show ?thesis
      unfolding p' by (meson adv_mono adv_mono_trans)
  qed
qed

text \<open>
  \<open>Query._parse_selector\<close>. \<open>selector_loop\<close> is its \<open>while require_selector\<close> loop, entered
  with \<open>require_selector\<close> true; \<open>selector_item\<close> is the \<open>if\<close> chain at the head of the loop
  that parses one item. The loop goes round only after a \<open>/\<close>.
\<close>

definition selector_item ::
  "(bytes \<Rightarrow> pyfloat option) \<Rightarrow> parser \<Rightarrow> error + (val \<times> parser)" where
  "selector_item fl p =
     (let current_byte = chunk 1 p in
      if current_byte = QUERY_START_STRING then
        bind (parse_string p) (\<lambda>(item, p'). Inr (VBytes item, p'))
      else if is_valid_int_start current_byte then parse_number fl p
      else Inl (ParseError (current p) ExpectedStringOrNumber))"

lemma selector_item_adv: "selector_item fl p = Inr (v, p') \<Longrightarrow> advances p p'"
  unfolding selector_item_def Let_def
  by (auto simp: bind_eq_Inr simp del: chunk_1 split: if_splits
      dest: parse_string_adv parse_number_adv)

function selector_loop ::
  "(bytes \<Rightarrow> pyfloat option) \<Rightarrow> val list \<Rightarrow> parser \<Rightarrow> error + (val list \<times> parser)" where
  "selector_loop fl selector p =
     bind (selector_item fl p) (\<lambda>(item, p1).
       if \<not> end_of_data p1 then
         if chunk 1 p1 = QUERY_PATH_SEPARATOR then
           bind (read_must QUERY_PATH_SEPARATOR p1) (\<lambda>p2.
             selector_loop fl (selector @ [item]) p2)
         else if chunk 1 p1 = QUERY_EQUAL then Inr (selector @ [item], p1)
         else Inl (ParseError (current p1) UnexpectedCharInSelector)
       else Inr (selector @ [item], p1))"
  by pat_completeness auto
termination
proof (relation "measure (\<lambda>(fl, s, p). length (data p) - current p)", goal_cases)
  case 1
  show ?case by simp
next
  case (2 fl selector p x item p1 p2)
  then have "advances p p1" by (auto dest: selector_item_adv)
  moreover from 2 have "advances p1 p2" by (intro read_must_adv [of QUERY_PATH_SEPARATOR]) simp_all
  ultimately show ?case by (auto simp: advances_def)
qed

declare selector_loop.simps [simp del]

definition parse_selector ::
  "(bytes \<Rightarrow> pyfloat option) \<Rightarrow> parser \<Rightarrow> error + (val list \<times> parser)" where
  "parse_selector fl p =
     (if end_of_data p \<or> chunk 1 p = QUERY_EQUAL then Inr ([], p)
      else selector_loop fl [] p)"

text \<open>
  \<open>Query._parse_value\<close>, \<open>_parse_array\<close> and \<open>_parse_object\<close>, which call each other. The
  dictionary \<open>self.callbacks\<close> is looked up with the next byte: its keys are the six
  bytes tested here. \<open>array_loop\<close> is the \<open>while\<close> loop of \<open>_parse_array\<close> with its variable
  \<open>array\<close>. The recursion ends because every call is on a cursor further in the same
  data: the progress of the inner calls is proved first, on the domain of the functions.
\<close>

function parse_value ::
    "(bytes \<Rightarrow> pyfloat option) \<Rightarrow> parser \<Rightarrow> error + (val \<times> parser)"
  and parse_array ::
    "(bytes \<Rightarrow> pyfloat option) \<Rightarrow> parser \<Rightarrow> error + (items \<times> parser)"
  and array_loop ::
    "(bytes \<Rightarrow> pyfloat option) \<Rightarrow> items \<Rightarrow> parser \<Rightarrow> error + (items \<times> parser)"
  and parse_object ::
    "(bytes \<Rightarrow> pyfloat option) \<Rightarrow> parser \<Rightarrow> error + (val \<times> parser)" where
  "parse_value fl p =
     (let chunk' = chunk 1 p in
      if chunk' = QUERY_START_STRING then
        bind (parse_string p) (\<lambda>(s, p'). Inr (VBytes s, p'))
      else if chunk' = QUERY_START_ARRAY then
        bind (parse_array fl p) (\<lambda>(array, p'). Inr (VArray array, p'))
      else if chunk' = QUERY_START_OBJECT then parse_object fl p
      else if chunk' = take 1 QUERY_TRUE then parse_true p
      else if chunk' = take 1 QUERY_FALSE then parse_false p
      else if chunk' = take 1 QUERY_NULL then parse_null p
      else if is_valid_int_start chunk' then parse_number fl p
      else Inl (ParseError (current p) ExpectedValue))"
| "parse_array fl p =
     bind (read_must QUERY_START_ARRAY p) (\<lambda>p1.
     bind (array_loop fl [] p1) (\<lambda>(array, p2).
     bind (read_must QUERY_END_ARRAY p2) (\<lambda>p3.
     Inr (array, p3))))"
| "array_loop fl array p =
     (if \<not> end_of_data p \<and> chunk 1 p \<noteq> QUERY_END_ARRAY then
        bind (parse_value fl p) (\<lambda>(key, p1).
        bind (read_must QUERY_KEY_VALUE_SEPARATOR p1) (\<lambda>p2.
        bind (parse_value fl p2) (\<lambda>(value, p3).
          if chunk 1 p3 = QUERY_ITEM_SEPARATOR then
            bind (read_must QUERY_ITEM_SEPARATOR p3) (\<lambda>p4.
              array_loop fl (array @ [(key, value)]) p4)
          else if chunk 1 p3 \<noteq> QUERY_END_ARRAY then
            Inl (ParseError (current p3) UnexpectedCharInArray)
          else array_loop fl (array @ [(key, value)]) p3)))
      else Inr (array, p))"
| "parse_object fl p =
     bind (read_must QUERY_START_OBJECT p) (\<lambda>p1.
     bind (parse_string p1) (\<lambda>(class_name, p2).
       if length class_name = 0 then Inl (ParseError (current p2) ClassNameEmpty)
       else
         bind (read_must QUERY_ITEM_SEPARATOR p2) (\<lambda>p3.
         bind (parse_array fl p3) (\<lambda>(properties, p4).
         bind (read_must QUERY_END_OBJECT p4) (\<lambda>p5.
         Inr (VObject class_name properties, p5))))))"
  by pat_completeness auto

lemma parse_true_adv: "parse_true p = Inr (v, p') \<Longrightarrow> advances p p'"
  by (auto simp: parse_true_def bind_eq_Inr intro: read_must_adv)

lemma parse_false_adv: "parse_false p = Inr (v, p') \<Longrightarrow> advances p p'"
  by (auto simp: parse_false_def bind_eq_Inr intro: read_must_adv)

lemma parse_null_adv: "parse_null p = Inr (v, p') \<Longrightarrow> advances p p'"
  by (auto simp: parse_null_def bind_eq_Inr intro: read_must_adv)

lemma read_must_1_adv: "read_must [c] p = Inr p' \<Longrightarrow> advances p p'"
  by (erule read_must_adv) simp

lemma parse_value_progress:
  "parse_value_parse_array_array_loop_parse_object_dom (Inl (Inl (fl, p))) \<Longrightarrow>
     parse_value fl p = Inr (v, p') \<Longrightarrow> advances p p'"
  "parse_value_parse_array_array_loop_parse_object_dom (Inl (Inr (fl, p))) \<Longrightarrow>
     parse_array fl p = Inr (a, p') \<Longrightarrow> advances p p'"
  "parse_value_parse_array_array_loop_parse_object_dom (Inr (Inl (fl, arr, p))) \<Longrightarrow>
     array_loop fl arr p = Inr (a, p') \<Longrightarrow> not_behind p p'"
  "parse_value_parse_array_array_loop_parse_object_dom (Inr (Inr (fl, p))) \<Longrightarrow>
     parse_object fl p = Inr (v, p') \<Longrightarrow> advances p p'"
proof (induct fl p and fl p and fl arr p and fl p arbitrary: v p' and a p' and a p' and v p'
    rule: parse_value_parse_array_array_loop_parse_object.pinduct)
  case (1 fl p)
  note eq = "1.prems" [unfolded parse_value.psimps [OF "1.hyps"(1)] Let_def]
  consider (str) "chunk 1 p = QUERY_START_STRING"
    | (arr) "chunk 1 p \<noteq> QUERY_START_STRING" "chunk 1 p = QUERY_START_ARRAY"
    | (obj) "chunk 1 p \<noteq> QUERY_START_STRING" "chunk 1 p \<noteq> QUERY_START_ARRAY"
        "chunk 1 p = QUERY_START_OBJECT"
    | (other) "chunk 1 p \<noteq> QUERY_START_STRING" "chunk 1 p \<noteq> QUERY_START_ARRAY"
        "chunk 1 p \<noteq> QUERY_START_OBJECT"
    by blast
  then show ?case
  proof cases
    case str
    with eq show ?thesis
      by (auto simp: bind_eq_Inr simp del: chunk_1 dest: parse_string_adv)
  next
    case arr
    with eq obtain a where "parse_array fl p = Inr (a, p')"
      by (auto simp: bind_eq_Inr simp del: chunk_1)
    with "1.hyps"(2) [OF refl] arr show ?thesis by simp
  next
    case obj
    with eq have "parse_object fl p = Inr (v, p')"
      by (auto simp: bind_eq_Inr simp del: chunk_1)
    with "1.hyps"(3) [OF refl] obj show ?thesis by simp
  next
    case other
    with eq show ?thesis
      by (auto simp del: chunk_1 split: if_splits
          dest: parse_true_adv parse_false_adv parse_null_adv parse_number_adv)
  qed
next
  case (2 fl p)
  from "2.prems" [unfolded parse_array.psimps [OF "2.hyps"(1)]]
  obtain p1 arr p2 where a: "read_must QUERY_START_ARRAY p = Inr p1"
    and b: "array_loop fl [] p1 = Inr (arr, p2)"
    and c: "read_must QUERY_END_ARRAY p2 = Inr p'"
    by (auto simp: bind_eq_Inr)
  from read_must_1_adv [OF a] "2.hyps"(2) [OF a b] read_must_1_adv [OF c] show ?case
    by (meson adv_mono adv_mono_trans)
next
  case (3 fl array p)
  note eq = "3.prems" [unfolded array_loop.psimps [OF "3.hyps"(1)]]
  show ?case
  proof (cases "\<not> end_of_data p \<and> chunk 1 p \<noteq> QUERY_END_ARRAY")
    case False
    with eq show ?thesis by (auto simp del: chunk_1)
  next
    case True
    with eq obtain key p1 p2 val p3 where k: "parse_value fl p = Inr (key, p1)"
      and s: "read_must QUERY_KEY_VALUE_SEPARATOR p1 = Inr p2"
      and v: "parse_value fl p2 = Inr (val, p3)"
      and r: "(if chunk 1 p3 = QUERY_ITEM_SEPARATOR then
            bind (read_must QUERY_ITEM_SEPARATOR p3) (\<lambda>p4.
              array_loop fl (array @ [(key, val)]) p4)
          else if chunk 1 p3 \<noteq> QUERY_END_ARRAY then
            Inl (ParseError (current p3) UnexpectedCharInArray)
          else array_loop fl (array @ [(key, val)]) p3) = Inr (a, p')"
      by (auto simp: bind_eq_Inr simp del: chunk_1)
    have a1: "advances p p1" by (rule "3.hyps"(2) [OF True k])
    have a2: "advances p1 p2" by (rule read_must_1_adv [OF s])
    have a3: "advances p2 p3" by (rule "3.hyps"(3) [OF True k refl s v])
    have a13: "advances p p3" using a1 a2 a3 by (meson adv_mono adv_mono_trans)
    show ?thesis
    proof (cases "chunk 1 p3 = QUERY_ITEM_SEPARATOR")
      case sep: True
      with r obtain p4 where c: "read_must QUERY_ITEM_SEPARATOR p3 = Inr p4"
        and l: "array_loop fl (array @ [(key, val)]) p4 = Inr (a, p')"
        by (auto simp: bind_eq_Inr simp del: chunk_1)
      from "3.hyps"(4) [OF True k refl s v refl sep c l] read_must_1_adv [OF c] a13
      show ?thesis by (meson adv_mono adv_mono_trans mono_trans)
    next
      case nsep: False
      with r have e: "\<not> chunk 1 p3 \<noteq> QUERY_END_ARRAY"
        and l: "array_loop fl (array @ [(key, val)]) p3 = Inr (a, p')"
        by (auto simp del: chunk_1 split: if_splits)
      from "3.hyps"(5) [OF True k refl s v refl nsep e l] a13
      show ?thesis by (meson adv_mono adv_mono_trans mono_trans)
    qed
  qed
next
  case (4 fl p)
  from "4.prems" [unfolded parse_object.psimps [OF "4.hyps"(1)]]
  obtain p1 cn p2 p3 props p4 where a: "read_must QUERY_START_OBJECT p = Inr p1"
    and b: "parse_string p1 = Inr (cn, p2)" and n: "length cn \<noteq> 0"
    and c: "read_must QUERY_ITEM_SEPARATOR p2 = Inr p3"
    and d: "parse_array fl p3 = Inr (props, p4)"
    and e: "read_must QUERY_END_OBJECT p4 = Inr p'"
    by (auto simp: bind_eq_Inr split: if_splits)
  from read_must_1_adv [OF a] parse_string_adv [OF b] read_must_1_adv [OF c]
    "4.hyps"(2) [OF a b refl n c d] read_must_1_adv [OF e]
  show ?case by (meson adv_mono adv_mono_trans)
qed

lemma adv_measure:
  "advances p p' \<Longrightarrow> length (data p') - current p' < length (data p) - current p"
  by (auto simp: advances_def)

termination parse_value
proof (relation "measure (\<lambda>x. case x of
      Inl (Inl (fl, p)) \<Rightarrow> 3 * (length (data p) - current p) + 1
    | Inl (Inr (fl, p)) \<Rightarrow> 3 * (length (data p) - current p)
    | Inr (Inl (fl, a, p)) \<Rightarrow> 3 * (length (data p) - current p) + 2
    | Inr (Inr (fl, p)) \<Rightarrow> 3 * (length (data p) - current p))", goal_cases)
  case 1
  show ?case by simp
next
  case (2 fl p x)
  show ?case by simp
next
  case (3 fl p x)
  show ?case by simp
next
  case (4 fl p x)
  from adv_measure [OF read_must_1_adv [OF 4]] show ?case by simp
next
  case (5 fl array p)
  show ?case by simp
next
  case (6 fl array p x key p1 p2)
  then have "advances p p1" by (auto dest: parse_value_progress(1))
  moreover from 6 have "advances p1 p2" by (auto dest: read_must_1_adv)
  ultimately have "advances p p2" by (meson adv_mono adv_mono_trans)
  from adv_measure [OF this] show ?case by simp
next
  case (7 fl array p x key p1 p2 y val p3 p4)
  then have "advances p p1" by (auto dest: parse_value_progress(1))
  moreover from 7 have "advances p1 p2" by (auto dest: read_must_1_adv)
  moreover from 7 have "advances p2 p3" by (auto dest: parse_value_progress(1))
  moreover from 7 have "advances p3 p4" by (auto dest: read_must_1_adv)
  ultimately have "advances p p4" by (meson adv_mono adv_mono_trans)
  from adv_measure [OF this] show ?case by simp
next
  case (8 fl array p x key p1 p2 y val p3)
  then have "advances p p1" by (auto dest: parse_value_progress(1))
  moreover from 8 have "advances p1 p2" by (auto dest: read_must_1_adv)
  moreover from 8 have "advances p2 p3" by (auto dest: parse_value_progress(1))
  ultimately have "advances p p3" by (meson adv_mono adv_mono_trans)
  from adv_measure [OF this] show ?case by simp
next
  case (9 fl p p1 x cn p2 p3)
  then have "advances p p1" by (auto dest: read_must_1_adv)
  moreover from 9 have "advances p1 p2" by (auto dest: parse_string_adv)
  moreover from 9 have "advances p2 p3" by (auto dest: read_must_1_adv)
  ultimately have "advances p p3" by (meson adv_mono adv_mono_trans)
  from adv_measure [OF this] show ?case by simp
qed

declare parse_value.simps [simp del] parse_array.simps [simp del]
  array_loop.simps [simp del] parse_object.simps [simp del]

text \<open>
  \<open>Query._parse_command\<close> returns \<open>(command_id, selector, value)\<close>, with \<open>None\<close> as the
  value of a command other than Set. \<open>Query.run\<close> resets the cursor to the expression and
  applies the command to the structure. \<open>php_modify\<close> decodes, runs and encodes.
\<close>

definition parse_command ::
  "(bytes \<Rightarrow> pyfloat option) \<Rightarrow> parser \<Rightarrow> error + ((bytes \<times> val list \<times> val) \<times> parser)" where
  "parse_command fl p =
     (let command_id = chunk 1 p in
      if command_id \<notin> set [QUERY_GET, QUERY_SET, QUERY_DELETE]
      then Inl (ParseError (current p) (UnknownCommand command_id))
      else
        bind (read_must command_id p) (\<lambda>p1.
        bind (read_must QUERY_COMMAND_SEPARATOR p1) (\<lambda>p2.
        bind (parse_selector fl p2) (\<lambda>(selector, p3).
          if command_id = QUERY_SET then
            bind (read_must QUERY_EQUAL p3) (\<lambda>p4.
            bind (parse_value fl p4) (\<lambda>(value, p5).
            Inr ((command_id, selector, value), p5)))
          else Inr ((command_id, selector, VNull), p3)))))"

definition Query_run ::
  "(bytes \<Rightarrow> pyfloat option) \<Rightarrow> val \<Rightarrow> bytes \<Rightarrow> error + val" where
  "Query_run fl structure expression =
     bind (parse_command fl (reset expression)) (\<lambda>((command, selector, value), p).
       if command = QUERY_SET then Query_set selector value structure
       else if command = QUERY_GET then Inr (Query_get selector structure)
       else if command = QUERY_DELETE then Query_delete selector structure
       else Inr VNull)"

definition php_modify ::
  "nat \<Rightarrow> (bytes \<Rightarrow> pyfloat option) \<Rightarrow> (pyfloat \<Rightarrow> bytes) \<Rightarrow> bytes \<Rightarrow> bytes \<Rightarrow> error + bytes" where
  "php_modify depth fl fs d expression =
     bind (php_unserialize depth fl d) (\<lambda>unserialized.
     bind (Query_run fl unserialized expression) (\<lambda>modified.
     php_serialize fs modified))"

text \<open>
  The spelling of a string in the query language: a backslash before each quote and each
  backslash.
\<close>

fun escape :: "bytes \<Rightarrow> bytes" where
  "escape [] = []"
| "escape (c # cs) =
     (if c = CHR 0x22 \<or> c = CHR 0x5C then CHR 0x5C # c # escape cs else c # escape cs)"

section \<open>Properties of the structural editor\<close>

declare Query_get.simps(1) [simp del]
declare Query_set.simps(1) [simp del]
declare Query_delete.simps(1) [simp del]

lemma Query_get_Nil [simp]: "Query_get [] t = t"
  by (simp add: Query_get.simps(1))

lemma Query_get_array [simp]: "Query_get (k # s) (VArray its) = get_loop k s its"
  by (simp add: Query_get.simps(1))

lemma Query_get_object [simp]: "Query_get (k # s) (VObject n ps) = get_loop k s ps"
  by (simp add: Query_get.simps(1)[of "k # s" "VObject n ps"])

lemma Query_get_scalar:
  "(\<forall>its. t \<noteq> VArray its) \<Longrightarrow> (\<forall>n ps. t \<noteq> VObject n ps) \<Longrightarrow> Query_get (k # s) t = VNull"
  by (cases t) (simp_all add: Query_get.simps(1))

lemma get_loop_no_match:
  "\<not> list_ex (\<lambda>(key, value). py_eq key k) its \<Longrightarrow> get_loop k s its = VNull"
  by (induction its) auto

lemma get_loop_find:
  "get_loop k s its =
     (case find (\<lambda>(key, value). py_eq key k) its of
        None \<Rightarrow> VNull | Some (key, value) \<Rightarrow> Query_get s value)"
  by (induction its) auto

lemma Query_set_Nil [simp]: "Query_set [] v t = Inr v"
  by (simp add: Query_set.simps(1))

lemma Query_set_array [simp]:
  "Query_set (k # s) v (VArray its) =
     (case set_loop k s v its [] True of Inl e \<Rightarrow> Inl e | Inr md \<Rightarrow> Inr (VArray md))"
  by (simp add: Query_set.simps(1))

lemma Query_set_object [simp]:
  "Query_set (k # s) v (VObject n its) =
     (case set_loop k s v its [] True of Inl e \<Rightarrow> Inl e | Inr md \<Rightarrow> Inr (VObject n md))"
  by (simp add: Query_set.simps(1))

lemma Query_set_empty_array: "Query_set s v (VArray []) = Inr (fresh_path s v)"
  by (induction s) auto

lemma set_loop_iff:
  "set_loop k s v its md c = Inr r \<longleftrightarrow>
     (\<exists>its'. list_all2 (set_pair k s v) its its' \<and>
        r = md @ its' @
          (if c \<and> \<not> list_ex (\<lambda>(ik, iv). py_eq k ik) its then [(k, fresh_path s v)] else []))"
proof (induction its arbitrary: md c r)
  case Nil
  then show ?case by (auto simp: Query_set_empty_array)
next
  case (Cons p its)
  obtain ik iv where p: "p = (ik, iv)" by (cases p)
  show ?case
  proof (cases "py_eq k ik")
    case True
    show ?thesis
    proof (cases "Query_set s v iv")
      case (Inl e)
      with True p show ?thesis by (auto simp: list_all2_Cons1 set_pair_def)
    next
      case (Inr iv')
      with True p Cons.IH[of "md @ [(ik, iv')]" False r] show ?thesis
        by (auto simp: list_all2_Cons1 set_pair_def)
    qed
  next
    case False
    with p Cons.IH[of "md @ [(ik, iv)]" c r] show ?thesis
      by (auto simp: list_all2_Cons1 set_pair_def)
  qed
qed

lemma Query_delete_Nil [simp]: "Query_delete [] t = Inr t"
  by (simp add: Query_delete.simps(1))

lemma Query_delete_single [simp]:
  "Query_delete [k] (VArray its) = Inr (VArray (filter (\<lambda>(key, value). \<not> py_eq key k) its))"
  by (simp add: Query_delete.simps(1))

lemma Query_delete_single_object [simp]:
  "Query_delete [k] (VObject n its) =
     Inr (VObject n (filter (\<lambda>(key, value). \<not> py_eq key k) its))"
  by (simp add: Query_delete.simps(1))

lemma py_eq_bytes_left: "py_eq (VBytes b) seg \<longleftrightarrow> seg = VBytes b"
  by (cases seg) auto

lemma py_eq_bytes_right: "py_eq key (VBytes b) \<longleftrightarrow> key = VBytes b"
  by (cases key) (auto split: option.splits)

lemma py_eq_numeric:
  "num_of key = Some x \<Longrightarrow> py_eq key seg \<longleftrightarrow> num_of seg = Some x"
  by (cases key; cases seg) (auto split: option.splits)

lemma set_array_unfold:
  "Query_set (k # s) v (VArray its) = Inr r \<longleftrightarrow>
     (\<exists>md. set_loop k s v its [] True = Inr md \<and> r = VArray md)"
  by (cases "set_loop k s v its [] True") auto

lemma set_pair_no_match:
  "\<not> list_ex (\<lambda>(item_key, item_value). py_eq k item_key) its \<Longrightarrow>
     list_all2 (set_pair k s v) its its' \<longleftrightarrow> its' = its"
proof (induction its arbitrary: its')
  case Nil
  then show ?case by auto
next
  case (Cons p its)
  obtain ik iv where p: "p = (ik, iv)" by (cases p)
  from Cons.prems p have nk: "\<not> py_eq k ik"
    and rest: "\<not> list_ex (\<lambda>(item_key, item_value). py_eq k item_key) its" by simp_all
  have one: "set_pair k s v (ik, iv) q \<longleftrightarrow> q = (ik, iv)" for q
    using nk by (cases q) (auto simp: set_pair_def)
  show ?case
    unfolding p list_all2_Cons1 one Cons.IH [OF rest] by blast
qed

lemma set_loop_top:
  "set_loop k s v its [] True = Inr md \<longleftrightarrow>
     (\<exists>its'. list_all2 (set_pair k s v) its its' \<and>
        md = its' @ (if \<not> list_ex (\<lambda>(ik, iv). py_eq k ik) its then [(k, fresh_path s v)] else []))"
  unfolding set_loop_iff by simp

lemma py_eq_sym_both:
  "py_eq a b = py_eq b a" "py_eq_items xs ys = py_eq_items ys xs"
  by (induction a b and xs ys rule: py_eq_py_eq_items.induct)
     (auto split: option.splits)

lemma py_eq_bool_left:
  "py_eq (VBool a) seg \<longleftrightarrow> num_of seg = Some (Num (if a then 1 else 0))"
  by (rule py_eq_numeric) simp

lemma py_eq_int_left:
  "py_eq (VInt i) seg \<longleftrightarrow> num_of seg = Some (Num (of_int i))"
  by (rule py_eq_numeric) simp

lemma py_eq_float_left:
  "py_eq (VFloat f) seg \<longleftrightarrow> (\<exists>x. float_num f = Some x \<and> num_of seg = Some x)"
  by (cases seg) (auto split: option.splits)

lemma py_eq_null_left: "py_eq VNull seg \<longleftrightarrow> seg = VNull"
  by (cases seg) auto

lemma py_eq_array_left:
  "py_eq (VArray xs) seg \<longleftrightarrow> (\<exists>ys. seg = VArray ys \<and> py_eq_items xs ys)"
  by (cases seg) auto

lemma py_eq_object_left:
  "py_eq (VObject n xs) seg \<longleftrightarrow> (\<exists>ys. seg = VObject n ys \<and> py_eq_items xs ys)"
  by (cases seg) auto

lemma py_eq_items_all2:
  "py_eq_items xs ys \<longleftrightarrow>
     list_all2 (\<lambda>(k, v) (k', v'). py_eq k k' \<and> py_eq v v') xs ys"
  by (induction xs ys rule: list_induct2') auto

lemma set_object_unfold:
  "Query_set (k # s) v (VObject n its) = Inr r \<longleftrightarrow>
     (\<exists>md. set_loop k s v its [] True = Inr md \<and> r = VObject n md)"
  by (cases "set_loop k s v its [] True") auto

lemma set_loop_cases:
  "set_loop k s v its [] True = Inr md \<longleftrightarrow>
     (if list_ex (\<lambda>(item_key, item_value). py_eq k item_key) its
      then list_all2 (set_pair k s v) its md
      else md = its @ [(k, fresh_path s v)])"
proof (cases "list_ex (\<lambda>(item_key, item_value). py_eq k item_key) its")
  case True
  then show ?thesis unfolding set_loop_top by simp
next
  case False
  show ?thesis
    unfolding set_loop_top set_pair_no_match [OF False] using False by simp
qed

lemma set_pair_single:
  "list_all2 (set_pair k [] v) its its' \<longleftrightarrow>
     its' = map (\<lambda>(item_key, item_value).
                   (item_key, if py_eq k item_key then v else item_value)) its"
proof (induction its arbitrary: its')
  case Nil
  then show ?case by auto
next
  case (Cons p its)
  obtain ik iv where p: "p = (ik, iv)" by (cases p)
  have one: "set_pair k [] v (ik, iv) q \<longleftrightarrow> q = (ik, if py_eq k ik then v else iv)" for q
    by (cases q) (auto simp: set_pair_def)
  show ?case
    unfolding p list_all2_Cons1 one Cons.IH by auto
qed

lemma set_loop_single:
  "set_loop k [] v its [] True =
     Inr (if list_ex (\<lambda>(item_key, item_value). py_eq k item_key) its
          then map (\<lambda>(item_key, item_value).
                      (item_key, if py_eq k item_key then v else item_value)) its
          else its @ [(k, v)])"
  unfolding set_loop_cases set_pair_single by simp

lemma delete_loop_iff:
  "delete_loop k s its md = Inr r \<longleftrightarrow>
     (\<exists>its'. list_all2 (delete_pair k s) its its' \<and> r = md @ its')"
proof (induction its arbitrary: md r)
  case Nil
  then show ?case by auto
next
  case (Cons p its)
  obtain ik iv where p: "p = (ik, iv)" by (cases p)
  show ?case
  proof (cases "py_eq ik k")
    case True
    show ?thesis
    proof (cases "Query_delete s iv")
      case (Inl e)
      with True p show ?thesis by (auto simp: list_all2_Cons1 delete_pair_def)
    next
      case (Inr iv')
      with True p Cons.IH[of "md @ [(ik, iv')]" r] show ?thesis
        by (auto simp: list_all2_Cons1 delete_pair_def)
    qed
  next
    case False
    with p Cons.IH[of "md @ [(ik, iv)]" r] show ?thesis
      by (auto simp: list_all2_Cons1 delete_pair_def)
  qed
qed

lemma delete_array_unfold:
  "Query_delete (k # t # s) (VArray its) = Inr r \<longleftrightarrow>
     (\<exists>md. delete_loop k (t # s) its [] = Inr md \<and> r = VArray md)"
  by (cases "delete_loop k (t # s) its []")
     (auto simp: Query_delete.simps(1) [of "k # t # s"])

lemma delete_object_unfold:
  "Query_delete (k # t # s) (VObject n its) = Inr r \<longleftrightarrow>
     (\<exists>md. delete_loop k (t # s) its [] = Inr md \<and> r = VObject n md)"
  by (cases "delete_loop k (t # s) its []")
     (auto simp: Query_delete.simps(1) [of "k # t # s"])

lemma Query_delete_deep_array:
  "Query_delete (k # t # s) (VArray its) = Inr r \<longleftrightarrow>
     (\<exists>its'. r = VArray its' \<and> list_all2 (delete_pair k (t # s)) its its')"
  unfolding delete_array_unfold delete_loop_iff by auto

lemma Query_delete_deep_object:
  "Query_delete (k # t # s) (VObject n its) = Inr r \<longleftrightarrow>
     (\<exists>its'. r = VObject n its' \<and> list_all2 (delete_pair k (t # s)) its its')"
  unfolding delete_object_unfold delete_loop_iff by auto

lemma Query_set_deep_array:
  "Query_set (k # s) v (VArray its) = Inr r \<longleftrightarrow>
     (\<exists>its'. r = VArray its' \<and>
        (if list_ex (\<lambda>(item_key, item_value). py_eq k item_key) its
         then list_all2 (set_pair k s v) its its'
         else its' = its @ [(k, fresh_path s v)]))"
  unfolding set_array_unfold set_loop_cases by auto

lemma Query_set_deep_object:
  "Query_set (k # s) v (VObject n its) = Inr r \<longleftrightarrow>
     (\<exists>its'. r = VObject n its' \<and>
        (if list_ex (\<lambda>(item_key, item_value). py_eq k item_key) its
         then list_all2 (set_pair k s v) its its'
         else its' = its @ [(k, fresh_path s v)]))"
  unfolding set_object_unfold set_loop_cases by auto

lemma Query_set_single_array:
  "Query_set [k] v (VArray its) =
     Inr (VArray (if list_ex (\<lambda>(item_key, item_value). py_eq k item_key) its
          then map (\<lambda>(item_key, item_value).
                      (item_key, if py_eq k item_key then v else item_value)) its
          else its @ [(k, v)]))"
  by (simp add: set_loop_single)

lemma Query_set_single_object:
  "Query_set [k] v (VObject n its) =
     Inr (VObject n (if list_ex (\<lambda>(item_key, item_value). py_eq k item_key) its
          then map (\<lambda>(item_key, item_value).
                      (item_key, if py_eq k item_key then v else item_value)) its
          else its @ [(k, v)]))"
  by (simp add: set_loop_single)

subsection \<open>C3: Set on an array\<close>

text \<open>
  C3, as the spec states it, on an array with a duplicate key: replacing the value of
  the first pair whose key matches would leave the second pair \<open>(0, 2)\<close> alone. The loop of
  \<open>_set\<close> has no \<open>break\<close> and replaces the value of both.
\<close>

theorem C3_first_match_counterexample:
  "Query_set [VInt 0] (VInt 9) (VArray [(VInt 0, VInt 1), (VInt 0, VInt 2)])
     = Inr (VArray [(VInt 0, VInt 9), (VInt 0, VInt 9)])
   \<and> Query_set [VInt 0] (VInt 9) (VArray [(VInt 0, VInt 1), (VInt 0, VInt 2)])
     \<noteq> spec_Set_one (VInt 0) (VInt 9) [(VInt 0, VInt 1), (VInt 0, VInt 2)]"
  by (simp add: spec_Set_one_def)

text \<open>
  C3, amended: for every array, non-empty selector \<open>k # s\<close> and literal \<open>v\<close>, Set succeeds
  with \<open>r\<close> exactly when \<open>r\<close> is an array of pairs such that: if some pair's key matches \<open>k\<close>,
  \<open>r\<close> has the same keys in the same order, the value of every pair whose key matches is
  the result of the recursive Set on it (which must succeed), and every other value is
  unchanged; if no pair's key matches, \<open>r\<close> is the old pairs followed by the one new pair
  \<open>(k, Set(s, v, empty array))\<close>. Set on the empty array never fails and builds the missing
  path segments as nested one-pair arrays (\<open>fresh_path\<close>).
\<close>

theorem C3_Query_set_array:
  "Query_set s v (VArray []) = Inr (fresh_path s v) \<and>
   (Query_set (k # s) v (VArray its) = Inr r \<longleftrightarrow>
     (\<exists>its'. r = VArray its' \<and>
        (if list_ex (\<lambda>(item_key, item_value). py_eq k item_key) its
         then list_all2 (set_pair k s v) its its'
         else its' = its @ [(k, fresh_path s v)])))"
proof (rule conjI)
  show "Query_set s v (VArray []) = Inr (fresh_path s v)"
    by (rule Query_set_empty_array)
next
  show "Query_set (k # s) v (VArray its) = Inr r \<longleftrightarrow>
     (\<exists>its'. r = VArray its' \<and>
        (if list_ex (\<lambda>(item_key, item_value). py_eq k item_key) its
         then list_all2 (set_pair k s v) its its'
         else its' = its @ [(k, fresh_path s v)]))"
  proof (cases "list_ex (\<lambda>(item_key, item_value). py_eq k item_key) its")
    case True
    have "set_loop k s v its [] True = Inr md \<longleftrightarrow> list_all2 (set_pair k s v) its md" for md
      unfolding set_loop_top using True by simp
    then show ?thesis
      unfolding set_array_unfold using True by auto
  next
    case False
    have "set_loop k s v its [] True = Inr md \<longleftrightarrow> md = its @ [(k, fresh_path s v)]" for md
      unfolding set_loop_top set_pair_no_match [OF False] using False by simp
    then show ?thesis
      unfolding set_array_unfold using False by auto
  qed
qed

text \<open>The spec's example: \<open>Set([2,1], 3, Array([(0,0),(1,1)]))\<close>.\<close>

theorem C3_Query_set_array_witness:
  "Query_set [VInt 2, VInt 1] (VInt 3) (VArray [(VInt 0, VInt 0), (VInt 1, VInt 1)])
     = Inr (VArray [(VInt 0, VInt 0), (VInt 1, VInt 1), (VInt 2, VArray [(VInt 1, VInt 3)])])"
  by (rule iffD2 [OF conjunct2 [OF C3_Query_set_array]]) simp

subsection \<open>C4: key equality\<close>

text \<open>
  C4, as the spec states it, fails: an \<open>Int(1)\<close> key matches a \<open>Bool(true)\<close> segment and a
  \<open>Float(1.0)\<close> segment, in Get, Set and Delete alike.
\<close>

theorem C4_distinct_variants_counterexample:
  "Query_get [VBool True] (VArray [(VInt 1, VBytes ''x'')]) = VBytes ''x''
   \<and> Query_get [VFloat (Finite 1)] (VArray [(VInt 1, VBytes ''x'')]) = VBytes ''x''
   \<and> Query_set [VBool True] VNull (VArray [(VInt 1, VBytes ''x'')])
       = Inr (VArray [(VInt 1, VNull)])
   \<and> Query_delete [VFloat (Finite 1)] (VArray [(VInt 1, VBytes ''x'')]) = Inr (VArray [])"
  by simp

text \<open>
  C4, amended: the key equality of Get, Set and Delete is Python's \<open>==\<close> (\<open>py_eq\<close>), not a
  match on variant and payload.

  The equality. A \<open>Bytes\<close> value equals only the same \<open>Bytes\<close>, so an \<open>Int(1)\<close> key does not
  match \<open>Bytes("1")\<close>. \<open>Bool\<close>, \<open>Int\<close> and \<open>Float\<close> compare by numeric value, \<open>true\<close> as 1,
  \<open>false\<close> as 0 and a NaN equal to nothing: a \<open>Bool\<close>, an \<open>Int\<close> or a \<open>Float\<close> equals exactly
  the \<open>Bool\<close>, \<open>Int\<close> and \<open>Float\<close> values of its own numeric value, so an \<open>Int(1)\<close> key matches
  \<open>Bool(true)\<close> and \<open>Float(1.0)\<close>, a \<open>Float\<close> key matches the \<open>Float\<close> of the same value and
  a \<open>Bool\<close> key the \<open>Float\<close> of value 0 or 1. \<open>Null\<close> equals only \<open>Null\<close>, a host string
  only the same host string, an array only an array and an object only an object of the
  same class name, with pairs that are equal one by one, keys and values. The equality
  is symmetric.

  Its use, on the pairs of an array and, in the same way, on the properties of an object
  (whose class name is kept). Get with the selector \<open>seg # s\<close> continues with \<open>s\<close> in the
  value of the first pair whose key equals \<open>seg\<close>, and is \<open>Null\<close> when there is none. Set
  succeeds with \<open>r\<close> exactly when \<open>r\<close> has, if some key equals \<open>seg\<close>, the same keys with the
  value of every pair whose key equals \<open>seg\<close> replaced by the result of Set with \<open>s\<close> in it,
  and, if no key equals \<open>seg\<close>, the old pairs followed by the new pair for \<open>seg\<close>; with the
  one segment \<open>seg\<close> it always succeeds, every value under a key equal to \<open>seg\<close> becomes
  the literal. Delete with the one segment \<open>seg\<close> keeps the pairs whose key does not equal
  \<open>seg\<close>; with more segments it succeeds with \<open>r\<close> exactly when \<open>r\<close> has the same keys with
  the value of every pair whose key equals \<open>seg\<close> replaced by the result of Delete with the
  rest of the selector in it.
\<close>

theorem C4_key_equality:
  "(py_eq (VBytes b) seg \<longleftrightarrow> seg = VBytes b)
   \<and> (py_eq key (VBytes b) \<longleftrightarrow> key = VBytes b)
   \<and> (py_eq (VBool a) seg \<longleftrightarrow> num_of seg = Some (Num (if a then 1 else 0)))
   \<and> (py_eq (VInt i) seg \<longleftrightarrow> num_of seg = Some (Num (of_int i)))
   \<and> (py_eq (VFloat f) seg \<longleftrightarrow> (\<exists>x. float_num f = Some x \<and> num_of seg = Some x))
   \<and> Query_set [seg] v (VArray its) =
       Inr (VArray
         (if list_ex (\<lambda>(item_key, item_value). py_eq seg item_key) its
          then map (\<lambda>(item_key, item_value).
                      (item_key, if py_eq seg item_key then v else item_value)) its
          else its @ [(seg, v)]))
   \<and> Query_set [seg] v (VObject n its) =
       Inr (VObject n
         (if list_ex (\<lambda>(item_key, item_value). py_eq seg item_key) its
          then map (\<lambda>(item_key, item_value).
                      (item_key, if py_eq seg item_key then v else item_value)) its
          else its @ [(seg, v)]))
   \<and> (py_eq key seg \<longleftrightarrow> py_eq seg key)
   \<and> (py_eq key (VInt i) \<longleftrightarrow> num_of key = Some (Num (of_int i)))
   \<and> (py_eq VNull seg \<longleftrightarrow> seg = VNull)
   \<and> (py_eq (VHostStr h) seg \<longleftrightarrow> seg = VHostStr h)
   \<and> (py_eq (VArray xs) seg \<longleftrightarrow> (\<exists>ys. seg = VArray ys \<and> py_eq_items xs ys))
   \<and> (py_eq (VObject n xs) seg \<longleftrightarrow> (\<exists>ys. seg = VObject n ys \<and> py_eq_items xs ys))
   \<and> (py_eq_items xs ys \<longleftrightarrow>
        list_all2 (\<lambda>(k, x) (k', x'). py_eq k k' \<and> py_eq x x') xs ys)
   \<and> Query_get (seg # s) (VArray its) =
       (case find (\<lambda>(key, value). py_eq key seg) its of
          None \<Rightarrow> VNull | Some (key, value) \<Rightarrow> Query_get s value)
   \<and> Query_get (seg # s) (VObject n its) =
       (case find (\<lambda>(key, value). py_eq key seg) its of
          None \<Rightarrow> VNull | Some (key, value) \<Rightarrow> Query_get s value)
   \<and> (Query_set (seg # s) v (VArray its) = Inr r \<longleftrightarrow>
        (\<exists>its'. r = VArray its' \<and>
           (if list_ex (\<lambda>(item_key, item_value). py_eq seg item_key) its
            then list_all2 (set_pair seg s v) its its'
            else its' = its @ [(seg, fresh_path s v)])))
   \<and> (Query_set (seg # s) v (VObject n its) = Inr r \<longleftrightarrow>
        (\<exists>its'. r = VObject n its' \<and>
           (if list_ex (\<lambda>(item_key, item_value). py_eq seg item_key) its
            then list_all2 (set_pair seg s v) its its'
            else its' = its @ [(seg, fresh_path s v)])))
   \<and> Query_set [seg] v (VArray [(key, x)]) =
       Inr (VArray (if py_eq seg key then [(key, v)] else [(key, x), (seg, v)]))
   \<and> Query_delete [seg] (VArray its) =
       Inr (VArray (filter (\<lambda>(key, value). \<not> py_eq key seg) its))
   \<and> Query_delete [seg] (VObject n its) =
       Inr (VObject n (filter (\<lambda>(key, value). \<not> py_eq key seg) its))
   \<and> (Query_delete (seg # t # s) (VArray its) = Inr r \<longleftrightarrow>
        (\<exists>its'. r = VArray its' \<and> list_all2 (delete_pair seg (t # s)) its its'))
   \<and> (Query_delete (seg # t # s) (VObject n its) = Inr r \<longleftrightarrow>
        (\<exists>its'. r = VObject n its' \<and> list_all2 (delete_pair seg (t # s)) its its'))"
proof -
  have int_right: "py_eq key (VInt i) \<longleftrightarrow> num_of key = Some (Num (of_int i))"
    by (cases key) (auto split: option.splits)
  have host_left: "py_eq (VHostStr h) seg \<longleftrightarrow> seg = VHostStr h"
    by (cases seg) auto
  have get_array: "Query_get (seg # s) (VArray its) =
       (case find (\<lambda>(key, value). py_eq key seg) its of
          None \<Rightarrow> VNull | Some (key, value) \<Rightarrow> Query_get s value)"
    by (simp add: get_loop_find)
  have get_object: "Query_get (seg # s) (VObject n its) =
       (case find (\<lambda>(key, value). py_eq key seg) its of
          None \<Rightarrow> VNull | Some (key, value) \<Rightarrow> Query_get s value)"
    by (simp add: get_loop_find)
  have set_one: "Query_set [seg] v (VArray [(key, x)]) =
       Inr (VArray (if py_eq seg key then [(key, v)] else [(key, x), (seg, v)]))"
    by simp
  show ?thesis
    by (intro conjI)
       (rule py_eq_bytes_left py_eq_bytes_right py_eq_bool_left py_eq_int_left
          py_eq_float_left Query_set_single_array Query_set_single_object
          py_eq_sym_both(1) int_right py_eq_null_left host_left py_eq_array_left
          py_eq_object_left py_eq_items_all2 get_array get_object
          Query_set_deep_array Query_set_deep_object set_one
          Query_delete_single Query_delete_single_object
          Query_delete_deep_array Query_delete_deep_object)+
qed

text \<open>
  An \<open>Int(1)\<close> key against \<open>Bytes("1")\<close>, \<open>Bool(true)\<close> and \<open>Float(1.0)\<close>; a \<open>Bool\<close> key against
  a \<open>Float\<close>; a \<open>Float\<close> key against a \<open>Float\<close>, in the equality and in Set on an array whose
  first key is a \<open>Float\<close>.
\<close>

theorem C4_key_equality_witness:
  "\<not> py_eq (VInt 1) (VBytes ''1'')
   \<and> py_eq (VInt 1) (VBool True)
   \<and> py_eq (VInt 1) (VFloat (Finite 1))
   \<and> py_eq (VBool True) (VFloat (Finite 1))
   \<and> py_eq (VFloat (Finite (3 / 2))) (VFloat (Finite (3 / 2)))
   \<and> \<not> py_eq (VFloat NaN) (VFloat NaN)
   \<and> Query_set [VFloat (Finite (3 / 2))] (VInt 1)
        (VArray [(VFloat (Finite (3 / 2)), VInt 0), (VInt 1, VInt 1)])
      = Inr (VArray [(VFloat (Finite (3 / 2)), VInt 1), (VInt 1, VInt 1)])"
proof -
  note c = C4_key_equality
  have of_bool: "py_eq (VBool a) seg \<longleftrightarrow> num_of seg = Some (Num (if a then 1 else 0))"
    for a seg
    by (rule c [THEN conjunct2, THEN conjunct2, THEN conjunct1])
  have of_int: "py_eq (VInt i) seg \<longleftrightarrow> num_of seg = Some (Num (of_int i))" for i seg
    by (rule c [THEN conjunct2, THEN conjunct2, THEN conjunct2, THEN conjunct1])
  have of_float:
    "py_eq (VFloat f) seg \<longleftrightarrow> (\<exists>x. float_num f = Some x \<and> num_of seg = Some x)" for f seg
    by (rule c [THEN conjunct2, THEN conjunct2, THEN conjunct2, THEN conjunct2,
          THEN conjunct1])
  have set_one: "Query_set [seg] v (VArray its) =
       Inr (VArray
         (if list_ex (\<lambda>(item_key, item_value). py_eq seg item_key) its
          then map (\<lambda>(item_key, item_value).
                      (item_key, if py_eq seg item_key then v else item_value)) its
          else its @ [(seg, v)]))" for seg v its
    by (rule c [THEN conjunct2, THEN conjunct2, THEN conjunct2, THEN conjunct2,
          THEN conjunct2, THEN conjunct1])
  have 1: "\<not> py_eq (VInt 1) (VBytes ''1'')" unfolding of_int by simp
  have 2: "py_eq (VInt 1) (VBool True)" unfolding of_int by simp
  have 3: "py_eq (VInt 1) (VFloat (Finite 1))" unfolding of_int by simp
  have 4: "py_eq (VBool True) (VFloat (Finite 1))" unfolding of_bool by simp
  have 5: "py_eq (VFloat (Finite (3 / 2))) (VFloat (Finite (3 / 2)))"
    unfolding of_float by simp
  have 6: "\<not> py_eq (VFloat NaN) (VFloat NaN)" unfolding of_float by simp
  have 7: "Query_set [VFloat (Finite (3 / 2))] (VInt 1)
        (VArray [(VFloat (Finite (3 / 2)), VInt 0), (VInt 1, VInt 1)])
      = Inr (VArray [(VFloat (Finite (3 / 2)), VInt 1), (VInt 1, VInt 1)])"
    unfolding set_one by simp
  from 1 2 3 4 5 6 7 show ?thesis by blast
qed

subsection \<open>C5: Delete with a selector of length 1\<close>

text \<open>
  C5: for every array and selector \<open>[k]\<close>, Delete returns the pairs whose key does not
  match \<open>k\<close>, in their order: every matching pair is removed. In the spec's example the
  key \<open>k\<close> matches itself and \<open>j\<close> does not match \<open>k\<close>.
\<close>

theorem C5_Query_delete_single:
  "Query_delete [k] (VArray its) =
     Inr (VArray (filter (\<lambda>(key, value). \<not> py_eq key k) its))
   \<and> (py_eq k k \<and> \<not> py_eq j k \<longrightarrow>
        Query_delete [k] (VArray [(k, VInt 1), (k, VInt 2), (j, VInt 3)])
          = Inr (VArray [(j, VInt 3)]))"
  by simp

theorem C5_Query_delete_single_witness:
  "py_eq (VBytes ''k'') (VBytes ''k'') \<and> \<not> py_eq (VBytes ''j'') (VBytes ''k'')
   \<and> Query_delete [VBytes ''k'']
        (VArray [(VBytes ''k'', VInt 1), (VBytes ''k'', VInt 2), (VBytes ''j'', VInt 3)])
      = Inr (VArray [(VBytes ''j'', VInt 3)])"
proof -
  have h: "py_eq (VBytes ''k'') (VBytes ''k'') \<and> \<not> py_eq (VBytes ''j'') (VBytes ''k'')"
    by simp
  from mp [OF conjunct2 [OF C5_Query_delete_single [of "VBytes ''k''" "[]" "VBytes ''j''"]] h]
    h show ?thesis by blast
qed

subsection \<open>C6: the empty selector\<close>

text \<open>
  C6: for every tree \<open>T\<close>, \<open>Get([], T)\<close> is \<open>T\<close> and \<open>Delete([], T)\<close> succeeds with \<open>T\<close>
  unchanged.
\<close>

theorem C6_empty_selector:
  "Query_get [] T = T \<and> Query_delete [] T = Inr T"
  by simp

theorem C6_empty_selector_witness:
  "Query_get [] (VArray [(VInt 0, VNull)]) = VArray [(VInt 0, VNull)]
   \<and> Query_delete [] (VArray [(VInt 0, VNull)]) = Inr (VArray [(VInt 0, VNull)])"
  by (rule C6_empty_selector)

subsection \<open>C7: Get of an absent key\<close>

text \<open>
  C7: for every non-empty selector \<open>k # s\<close>, Get returns \<open>Null\<close> when the tree is an array
  in which no pair's key matches \<open>k\<close>, and when the tree is neither an array nor an
  object. \<open>Query_get\<close> returns a value on every input: it has no error result.
\<close>

theorem C7_Query_get_absent:
  assumes "\<And>its. tree = VArray its \<Longrightarrow> \<not> list_ex (\<lambda>(key, value). py_eq key k) its"
    and "\<And>n ps. tree \<noteq> VObject n ps"
  shows "Query_get (k # s) tree = VNull"
proof (cases "\<exists>its. tree = VArray its")
  case True
  then obtain its where t: "tree = VArray its" by blast
  with assms(1) show ?thesis by (simp add: get_loop_no_match)
next
  case False
  with assms(2) show ?thesis by (intro Query_get_scalar) auto
qed

text \<open>The spec's example: \<open>Get([1], Array([])) == Null\<close>.\<close>

theorem C7_Query_get_absent_witness:
  "Query_get [VInt 1] (VArray []) = VNull"
  by (rule C7_Query_get_absent) simp_all

section \<open>Properties of the codec\<close>

lemma of_char_digit_char: "d < 10 \<Longrightarrow> (of_char (digit_char d) :: nat) = 48 + d"
  by (simp add: digit_char_def)

lemma is_digit_digit_char [simp]: "d < 10 \<Longrightarrow> is_digit (digit_char d)"
  by (simp add: is_digit_def of_char_digit_char)

lemma digit_value_digit_char [simp]: "d < 10 \<Longrightarrow> digit_value (digit_char d) = d"
  by (simp add: digit_value_def of_char_digit_char)

lemma is_digit_not_special:
  "is_digit c \<Longrightarrow> \<not> is_space c \<and> c \<noteq> CHR ''-'' \<and> c \<noteq> CHR ''+'' \<and> c \<noteq> CHR ''_''
     \<and> c \<noteq> CHR '':'' \<and> c \<noteq> CHR '';''"
  by (auto simp: is_digit_def is_space_def)

declare digits.simps [simp del]

lemma digits_all: "list_all is_digit (digits n)"
  by (induction n rule: digits.induct) (subst digits.simps, simp)

lemma digits_not_Nil [simp]: "digits n \<noteq> []"
  by (subst digits.simps) simp

definition digits_value :: "nat \<Rightarrow> bytes \<Rightarrow> nat" where
  "digits_value acc ds = fold (\<lambda>c a. 10 * a + digit_value c) ds acc"

lemma scan_digits_all:
  "list_all is_digit ds \<Longrightarrow> scan_digits acc ds = Some (digits_value acc ds, [])"
  by (induction ds arbitrary: acc) (simp_all add: digits_value_def)

lemma digits_value_append:
  "digits_value acc (xs @ ys) = digits_value (digits_value acc xs) ys"
  by (simp add: digits_value_def)

lemma digits_value_digits: "digits_value 0 (digits n) = n"
proof (induction n rule: digits.induct)
  case (1 n)
  show ?case
  proof (cases "n < 10")
    case True
    then show ?thesis by (subst digits.simps) (simp add: digits_value_def)
  next
    case False
    with 1 have "digits_value 0 (digits (n div 10)) = n div 10" by simp
    with False show ?thesis
      by (subst digits.simps) (simp add: digits_value_append, simp add: digits_value_def)
  qed
qed

lemma py_int_digits: "py_int (digits n) = Some (int n)"
proof -
  obtain d ds where ds: "digits n = d # ds"
    by (cases "digits n") simp_all
  from digits_all [of n] ds have d: "is_digit d" and all: "list_all is_digit ds" by simp_all
  from is_digit_not_special [OF d] have sp: "\<not> is_space d"
    and sg: "d \<noteq> CHR ''-''" "d \<noteq> CHR ''+''" by simp_all
  have "digits_value (digit_value d) ds = digits_value 0 (d # ds)"
    by (simp add: digits_value_def)
  also have "\<dots> = n" using digits_value_digits [of n] ds by simp
  finally have v: "digits_value (digit_value d) ds = n" .
  show ?thesis
    unfolding py_int_def ds using sp sg d by (simp add: scan_digits_all [OF all] v)
qed

lemma py_int_minus_digits: "py_int (CHR ''-'' # digits n) = Some (- int n)"
proof -
  obtain d ds where ds: "digits n = d # ds"
    by (cases "digits n") simp_all
  from digits_all [of n] ds have d: "is_digit d" and all: "list_all is_digit ds" by simp_all
  have "digits_value (digit_value d) ds = digits_value 0 (d # ds)"
    by (simp add: digits_value_def)
  also have "\<dots> = n" using digits_value_digits [of n] ds by simp
  finally have v: "digits_value (digit_value d) ds = n" .
  have sp: "\<not> is_space CHR ''-''" by (simp add: is_space_def)
  show ?thesis
    unfolding py_int_def ds using sp d by (simp add: scan_digits_all [OF all] v)
qed

lemma py_int_str_int: "py_int (str_int i) = Some i"
  by (simp add: str_int_def py_int_digits py_int_minus_digits)

lemma int_of_bytes_str_int [simp]: "int_of_bytes (str_int i) = Inr i"
  by (simp add: int_of_bytes_def py_int_str_int)

lemma digits_no_sep: "c \<in> set (digits n) \<Longrightarrow> c \<noteq> CHR '':'' \<and> c \<noteq> CHR '';''"
  using digits_all [of n] is_digit_not_special by (auto simp: list_all_iff)

lemma str_int_no_sep [simp]:
  "CHR '':'' \<notin> set (str_int i)" "CHR '';'' \<notin> set (str_int i)"
  using digits_no_sep by (auto simp: str_int_def)

lemmas decode_simps =
  read_must_take read_bytes_take read_until_single find_bytes_single

lemma int_from_bytes_ok:
  "remaining p = ''i:'' @ str_int i @ '';'' @ r \<Longrightarrow>
     int_from_bytes p = Inr (VInt i, next_byte (length (''i:'' @ str_int i @ '';'')) p)"
  by (simp add: int_from_bytes_def decode_simps)

lemma bool_from_bytes_ok:
  "remaining p = ''b:'' @ str_int (if b then 1 else 0) @ '';'' @ r \<Longrightarrow>
     bool_from_bytes p =
       Inr (VBool b, next_byte (length (''b:'' @ str_int (if b then 1 else 0) @ '';'')) p)"
  by (simp add: bool_from_bytes_def decode_simps)

lemma decimal_from_bytes_ok:
  "remaining p = ''d:'' @ s @ '';'' @ r \<Longrightarrow> CHR '';'' \<notin> set s \<Longrightarrow> fl s = Some f \<Longrightarrow>
     decimal_from_bytes fl p = Inr (VFloat f, next_byte (length (''d:'' @ s @ '';'')) p)"
  by (simp add: decimal_from_bytes_def float_of_bytes_def decode_simps)
   

lemma string_from_bytes_ok:
  "remaining p = ''s:'' @ str_int (int (length d)) @ '':'' @ [CHR 0x22] @ d @ [CHR 0x22] @ '';'' @ r \<Longrightarrow>
     string_from_bytes p =
       Inr (VBytes d, next_byte (length (''s:'' @ str_int (int (length d)) @ '':'' @ [CHR 0x22] @ d @ [CHR 0x22] @ '';'')) p)"
  by (simp add: string_from_bytes_def decode_simps)

lemma array_from_bytes_ok:
  assumes rem: "remaining p = ''a:'' @ str_int (int n) @ '':{'' @ body @ ''}'' @ r"
    and pairs: "\<And>q. remaining q = body @ ''}'' @ r \<Longrightarrow>
       pairs_from_bytes depth fl n q = Inr (its, next_byte (length body) q)"
  shows "array_from_bytes depth fl p =
     Inr (VArray its, next_byte (length (''a:'' @ str_int (int n) @ '':{'' @ body @ ''}'')) p)"
proof -
  define q where "q = next_byte 1 (next_byte 1 (next_byte (length (str_int (int n)))
                        (next_byte 1 (next_byte 1 p))))"
  have q: "remaining q = body @ ''}'' @ r" using rem by (simp add: q_def)
  note pq = pairs [OF q]
  show ?thesis
    using rem pq unfolding q_def
    by (simp add: decode_simps)
qed

lemma object_from_bytes_ok:
  assumes rem: "remaining p = ''O:'' @ str_int (int (length cn)) @ '':'' @ [CHR 0x22] @ cn
       @ [CHR 0x22] @ '':'' @ str_int (int n) @ '':{'' @ body @ ''}'' @ r"
    and pairs: "\<And>q. remaining q = body @ ''}'' @ r \<Longrightarrow>
       pairs_from_bytes depth fl n q = Inr (its, next_byte (length body) q)"
  shows "object_from_bytes depth fl p =
     Inr (VObject cn its, next_byte (length (''O:'' @ str_int (int (length cn)) @ '':''
       @ [CHR 0x22] @ cn @ [CHR 0x22] @ '':'' @ str_int (int n) @ '':{'' @ body @ ''}'')) p)"
proof -
  define q where "q = next_byte 1 (next_byte 1 (next_byte (length (str_int (int n)))
      (next_byte 1 (next_byte 1 (next_byte (length cn) (next_byte 1 (next_byte 1
      (next_byte (length (str_int (int (length cn)))) (next_byte 1 (next_byte 1 p))))))))))"
  have q: "remaining q = body @ ''}'' @ r" using rem by (simp add: q_def)
  note pq = pairs [OF q]
  show ?thesis
    using rem pq unfolding q_def
    by (simp add: decode_simps)
qed

lemma floats_ok_append [simp]:
  "floats_ok fl fs (xs @ ys) \<longleftrightarrow> floats_ok fl fs xs \<and> floats_ok fl fs ys"
  by (auto simp: floats_ok_def)

lemma decode_encode:
  "to_bytes fs v = Inr b \<Longrightarrow> floats_ok fl fs (floats_of v) \<Longrightarrow> nesting v \<le> depth \<Longrightarrow>
     remaining p = b @ r \<Longrightarrow> from_bytes depth fl p = Inr (v, next_byte (length b) p)"
  "items_to_bytes fs its = Inr b \<Longrightarrow> floats_ok fl fs (floats_of_items its) \<Longrightarrow>
     nesting_items its \<le> depth \<Longrightarrow> remaining p = b @ r \<Longrightarrow>
     pairs_from_bytes depth fl (length its) p = Inr (its, next_byte (length b) p)"
proof (induction fs v and fs its arbitrary: b depth p r and b depth p r
    rule: to_bytes_items_to_bytes.induct)
  case (1 fs d)
  then obtain dp where dp: "depth = Suc dp" by (cases depth) simp_all
  from 1 show ?case unfolding dp
    by (auto simp: string_from_bytes_ok)
next
  case (2 fs bv)
  then obtain dp where dp: "depth = Suc dp" by (cases depth) simp_all
  from 2 bool_from_bytes_ok [of p bv r] show ?case unfolding dp
    by auto
next
  case (3 fs i)
  then obtain dp where dp: "depth = Suc dp" by (cases depth) simp_all
  from 3 int_from_bytes_ok [of p i r] show ?case unfolding dp
    by auto
next
  case (4 fs f)
  then obtain dp where dp: "depth = Suc dp" by (cases depth) simp_all
  from 4 decimal_from_bytes_ok [of p "fs f" r fl f] show ?case unfolding dp
    by (auto simp: floats_ok_def)
next
  case (5 fs its)
  then obtain dp where dp: "depth = Suc dp" by (cases depth) simp_all
  from "5.prems"(1) obtain body where body: "items_to_bytes fs its = Inr body"
    and b: "b = ''a:'' @ str_int (int (length its)) @ '':{'' @ body @ ''}''"
    by (auto simp: bind_eq_Inr)
  have pairs: "pairs_from_bytes dp fl (length its) q = Inr (its, next_byte (length body) q)"
    if "remaining q = body @ ''}'' @ r" for q
    using "5.IH" [OF body _ _ that] "5.prems" dp by simp
  have rem: "remaining p = ''a:'' @ str_int (int (length its)) @ '':{'' @ body @ ''}'' @ r"
    using "5.prems"(4) b by simp
  from array_from_bytes_ok [OF rem pairs] rem show ?case
    unfolding dp b by simp
next
  case (6 fs cn its)
  then obtain dp where dp: "depth = Suc dp" by (cases depth) simp_all
  from "6.prems"(1) obtain body where body: "items_to_bytes fs its = Inr body"
    and b: "b = ''O:'' @ str_int (int (length cn)) @ '':'' @ [CHR 0x22] @ cn
       @ [CHR 0x22] @ '':'' @ str_int (int (length its)) @ '':{'' @ body @ ''}''"
    by (auto simp: bind_eq_Inr)
  have pairs: "pairs_from_bytes dp fl (length its) q = Inr (its, next_byte (length body) q)"
    if "remaining q = body @ ''}'' @ r" for q
    using "6.IH" [OF body _ _ that] "6.prems" dp by simp
  have rem: "remaining p = ''O:'' @ str_int (int (length cn)) @ '':'' @ [CHR 0x22] @ cn
       @ [CHR 0x22] @ '':'' @ str_int (int (length its)) @ '':{'' @ body @ ''}'' @ r"
    using "6.prems"(4) b by simp
  from object_from_bytes_ok [OF rem pairs] rem show ?case
    unfolding dp b by simp
next
  case (7 fs)
  then show ?case by simp
next
  case (8 fs s)
  then show ?case by simp
next
  case (9 fs)
  then show ?case by simp
next
  case (10 fs key "value" its)
  from "10.prems"(1) obtain k v rest where k: "to_bytes fs key = Inr k"
    and v: "to_bytes fs value = Inr v" and rest: "items_to_bytes fs its = Inr rest"
    and b: "b = k @ v @ rest"
    by (auto simp: bind_eq_Inr)
  from "10.prems"(2) have fk: "floats_ok fl fs (floats_of key)"
    and fv: "floats_ok fl fs (floats_of value)"
    and fr: "floats_ok fl fs (floats_of_items its)" by simp_all
  from "10.prems"(3) have nk: "nesting key \<le> depth" and nv: "nesting value \<le> depth"
    and nr: "nesting_items its \<le> depth" by simp_all
  have r1: "remaining p = k @ (v @ rest @ r)" using "10.prems"(4) b by simp
  note s1 = "10.IH"(1) [OF k fk nk r1]
  define p1 where "p1 = next_byte (length k) p"
  have r2: "remaining p1 = v @ (rest @ r)" using r1 by (simp add: p1_def)
  note s2 = "10.IH"(2) [OF k v fv nv r2]
  define p2 where "p2 = next_byte (length v) p1"
  have r3: "remaining p2 = rest @ r" using r2 by (simp add: p2_def)
  note s3 = "10.IH"(3) [OF k v rest fr nr r3]
  show ?case
    using s1 s2 s3 unfolding p1_def p2_def b
    by (simp add: next_byte_next_byte add.assoc)
qed

section \<open>Properties of the path expression parser\<close>

lemma end_of_data_remaining: "end_of_data p \<longleftrightarrow> remaining p = []"
  by (simp add: end_of_data_def remaining_def)

lemma read_bytes_1_Cons:
  "remaining p = c # r \<Longrightarrow> read_bytes 1 p = ([c], next_byte 1 p)"
  using read_bytes_take [of 1 p] by simp

lemma string_loop_escape:
  "remaining p = escape s @ CHR 0x22 # r \<Longrightarrow>
     string_loop False acc p = Inr (acc @ s, next_byte (length (escape s) + 1) p)"
proof (induction s arbitrary: acc p)
  case Nil
  then have rem: "remaining p = CHR 0x22 # r" by simp
  then have "read_must QUERY_END_STRING p = Inr (next_byte 1 p)"
    by (simp add: read_must_take)
  with rem show ?case
    by (subst string_loop.simps) (simp add: end_of_data_remaining)
next
  case (Cons c cs)
  show ?case
  proof (cases "c = CHR 0x22 \<or> c = CHR 0x5C")
    case True
    with Cons.prems have rem: "remaining p = CHR 0x5C # c # escape cs @ CHR 0x22 # r"
      by simp
    define p1 where "p1 = next_byte 1 p"
    have rem1: "remaining p1 = c # escape cs @ CHR 0x22 # r"
      using rem by (simp add: p1_def)
    define p2 where "p2 = next_byte 1 p1"
    have rem2: "remaining p2 = escape cs @ CHR 0x22 # r"
      using rem1 by (simp add: p2_def)
    have "string_loop False acc p = string_loop True acc p1"
      using rem by (subst string_loop.simps) (simp add: end_of_data_remaining p1_def)
    also have "\<dots> = string_loop False (acc @ [c]) p2"
      using rem1 read_bytes_1_Cons [OF rem1]
      by (subst string_loop.simps) (simp add: end_of_data_remaining p2_def)
    also have "\<dots> = Inr ((acc @ [c]) @ cs, next_byte (length (escape cs) + 1) p2)"
      by (rule Cons.IH [OF rem2])
    finally show ?thesis
      using True by (simp add: p1_def p2_def next_byte_def)
  next
    case False
    with Cons.prems have rem: "remaining p = c # escape cs @ CHR 0x22 # r"
      by simp
    define p1 where "p1 = next_byte 1 p"
    have rem1: "remaining p1 = escape cs @ CHR 0x22 # r"
      using rem by (simp add: p1_def)
    have "string_loop False acc p = string_loop False (acc @ [c]) p1"
      using rem False read_bytes_1_Cons [OF rem]
      by (subst string_loop.simps) (simp add: end_of_data_remaining p1_def)
    also have "\<dots> = Inr ((acc @ [c]) @ cs, next_byte (length (escape cs) + 1) p1)"
      by (rule Cons.IH [OF rem1])
    finally show ?thesis
      using False by (simp add: p1_def next_byte_def)
  qed
qed

lemma parse_string_escape:
  "remaining p = CHR 0x22 # escape s @ CHR 0x22 # r \<Longrightarrow>
     parse_string p = Inr (s, next_byte (length (escape s) + 2) p)"
proof -
  assume rem: "remaining p = CHR 0x22 # escape s @ CHR 0x22 # r"
  then have a: "read_must QUERY_START_STRING p = Inr (next_byte 1 p)"
    by (simp add: read_must_take)
  have "remaining (next_byte 1 p) = escape s @ CHR 0x22 # r" using rem by simp
  from string_loop_escape [OF this, of "[]"] a show ?thesis
    by (simp add: parse_string_def next_byte_def)
qed

lemma parse_value_object:
  "chunk 1 p = QUERY_START_OBJECT \<Longrightarrow> parse_value fl p = parse_object fl p"
  by (subst parse_value.simps) (simp del: chunk_1)

lemma parse_object_named:
  assumes rem: "remaining p = ''{'' @ [CHR 0x22] @ escape cn @ [CHR 0x22] @ r"
  shows "parse_object fl p =
     (if cn = [] then Inl (ParseError (current p + 3) ClassNameEmpty)
      else bind (read_must QUERY_ITEM_SEPARATOR (next_byte (length (escape cn) + 3) p)) (\<lambda>p3.
           bind (parse_array fl p3) (\<lambda>(properties, p4).
           bind (read_must QUERY_END_OBJECT p4) (\<lambda>p5.
           Inr (VObject cn properties, p5)))))"
proof -
  have a: "read_must QUERY_START_OBJECT p = Inr (next_byte 1 p)"
    using rem by (simp add: read_must_take)
  have "remaining (next_byte 1 p) = CHR 0x22 # escape cn @ CHR 0x22 # r"
    using rem by simp
  from parse_string_escape [OF this]
  have b: "parse_string (next_byte 1 p)
      = Inr (cn, next_byte (length (escape cn) + 3) p)"
    by (simp add: next_byte_def)
  show ?thesis
    using a b by (subst parse_object.simps) simp
qed

lemma char_0: "(of_char c :: nat) = 48 \<longleftrightarrow> c = CHR ''0''"
  using of_char_eq_iff [of c "CHR ''0''", where ?'a = nat] by simp

lemma char_9: "(of_char c :: nat) = 57 \<longleftrightarrow> c = CHR ''9''"
  using of_char_eq_iff [of c "CHR ''9''", where ?'a = nat] by simp

lemma digit_byte: "bytes_le DIGIT_ZERO [c] \<and> bytes_le [c] DIGIT_NINE \<longleftrightarrow> is_digit c"
proof -
  have a: "(of_char c :: nat) < 57 \<or> c = CHR ''9'' \<longleftrightarrow> (of_char c :: nat) \<le> 57"
    unfolding char_9 [symmetric] by linarith
  have b: "(48::nat) < of_char c \<or> CHR ''0'' = c \<longleftrightarrow> (48::nat) \<le> of_char c"
    using char_0 [of c] by (auto simp: le_less)
  show ?thesis using a b by (simp add: is_digit_def)
qed

lemma not_digit_byte_Nil [simp]: "\<not> bytes_le DIGIT_ZERO []"
  by simp

lemma parse_number_not_started:
  assumes "\<not> is_valid_int_start (chunk 1 p)"
  shows "parse_number fl p = Inl (ParseError (current p) ExpectedDigit)"
proof -
  from assms have m: "chunk 1 p \<noteq> MINUS"
    and d: "\<not> (bytes_le DIGIT_ZERO (chunk 1 p) \<and> bytes_le (chunk 1 p) DIGIT_NINE)"
    by (auto simp: is_valid_int_start_def simp del: chunk_1)
  from d have "number_loop EMPTY p = (EMPTY, p)"
    by (subst number_loop.simps) (simp del: chunk_1)
  with m show ?thesis
    by (simp add: parse_number_def del: chunk_1)
qed

lemma parse_number_lone_minus:
  assumes rem: "remaining p = CHR ''-'' # r"
    and r: "r = [] \<or> (\<not> is_digit (hd r) \<and> hd r \<noteq> CHR ''.'')"
  shows "parse_number fl p = Inl (ValueError (InvalidLiteralForInt MINUS))"
proof -
  define p1 where "p1 = next_byte 1 p"
  have rem1: "remaining p1 = r" using rem by (simp add: p1_def)
  have nl: "number_loop MINUS p1 = (MINUS, p1)"
  proof (cases r)
    case Nil
    with rem1 show ?thesis
      by (subst number_loop.simps) (simp add: end_of_data_remaining)
  next
    case (Cons c cs)
    with r have "\<not> is_digit c" by simp
    with Cons rem1 digit_byte [of c] show ?thesis
      by (subst number_loop.simps) (simp add: end_of_data_remaining)
  qed
  have dot: "chunk 1 p1 \<noteq> DECIMAL_DOT"
    using r rem1 by (cases r) auto
  have "py_int MINUS = None"
    by (simp add: py_int_def is_space_def)
  then have i: "int_of_bytes MINUS = Inl (ValueError (InvalidLiteralForInt MINUS))"
    by (simp add: int_of_bytes_def)
  have c: "chunk 1 p = MINUS" using rem by simp
  show ?thesis
    unfolding parse_number_def
    using c nl dot i by (simp add: p1_def del: chunk_1)
qed

section \<open>The claims on the codec, the cursor and the parser\<close>

subsection \<open>C1: decode, then encode\<close>

text \<open>
  C1, as the spec states it, fails: the decoder accepts \<open>b:2;\<close> (any integer after
  \<open>b:\<close>, read by \<open>int\<close> and \<open>bool\<close>) and \<open>i:007;\<close> (\<open>int\<close> takes leading zeros), and the
  encoder writes \<open>b:1;\<close> and \<open>i:7;\<close> for what they decode to. The float conversions are
  not reached on these inputs.
\<close>

theorem C1_round_trip_counterexample:
  "php_unserialize 1 (\<lambda>b. None) ''b:2;'' = Inr (VBool True)
   \<and> bind (php_unserialize 1 (\<lambda>b. None) ''b:2;'') (php_serialize (\<lambda>f. [])) = Inr ''b:1;''
   \<and> bind (php_unserialize 1 (\<lambda>b. None) ''b:2;'') (php_serialize (\<lambda>f. [])) \<noteq> Inr ''b:2;''
   \<and> bind (php_unserialize 1 (\<lambda>b. None) ''i:007;'') (php_serialize (\<lambda>f. [])) = Inr ''i:7;''"
  by code_simp

text \<open>
  C1, amended: for every byte sequence \<open>b\<close> that is the encoder's own output for a value
  \<open>v\<close> (so \<open>v\<close> holds no \<open>Null\<close>), decoding \<open>b\<close> succeeds with \<open>v\<close> and encoding the decoded
  value gives \<open>b\<close> back byte for byte, provided that on the floats of \<open>v\<close> \<open>float(str(x))\<close>
  is \<open>x\<close> and \<open>str(x)\<close> has no \<open>;\<close>, and that the interpreter allows the nesting of \<open>v\<close>.
\<close>

theorem C1_round_trip_canonical:
  assumes "php_serialize fs v = Inr b"
    and "floats_ok fl fs (floats_of v)"
    and "nesting v \<le> depth"
  shows "php_unserialize depth fl b = Inr v
    \<and> bind (php_unserialize depth fl b) (php_serialize fs) = Inr b"
proof -
  have "remaining (reset b) = b @ []"
    by (simp add: remaining_def reset_def)
  from decode_encode(1) [OF assms(1) [unfolded php_serialize_def] assms(2) assms(3) this]
  have "php_unserialize depth fl b = Inr v"
    by (simp add: php_unserialize_def)
  with assms(1) show ?thesis by simp
qed

theorem C1_round_trip_canonical_witness:
  "php_serialize (\<lambda>f. ''1.5'')
       (VArray [(VInt 0, VFloat (Finite (3/2))),
                (VBytes ''k'', VObject ''P'' [(VBool True, VInt (-7))])])
     = Inr (''a:2:{i:0;d:1.5;s:1:'' @ [CHR 0x22] @ ''k'' @ [CHR 0x22] @ '';O:1:''
            @ [CHR 0x22] @ ''P'' @ [CHR 0x22] @ '':1:{b:1;i:-7;}}'')
   \<and> php_unserialize 3 (\<lambda>b. if b = ''1.5'' then Some (Finite (3/2)) else None)
       (''a:2:{i:0;d:1.5;s:1:'' @ [CHR 0x22] @ ''k'' @ [CHR 0x22] @ '';O:1:''
            @ [CHR 0x22] @ ''P'' @ [CHR 0x22] @ '':1:{b:1;i:-7;}}'')
     = Inr (VArray [(VInt 0, VFloat (Finite (3/2))),
                    (VBytes ''k'', VObject ''P'' [(VBool True, VInt (-7))])])
   \<and> bind (php_unserialize 3 (\<lambda>b. if b = ''1.5'' then Some (Finite (3/2)) else None)
         (''a:2:{i:0;d:1.5;s:1:'' @ [CHR 0x22] @ ''k'' @ [CHR 0x22] @ '';O:1:''
            @ [CHR 0x22] @ ''P'' @ [CHR 0x22] @ '':1:{b:1;i:-7;}}''))
       (php_serialize (\<lambda>f. ''1.5''))
     = Inr (''a:2:{i:0;d:1.5;s:1:'' @ [CHR 0x22] @ ''k'' @ [CHR 0x22] @ '';O:1:''
            @ [CHR 0x22] @ ''P'' @ [CHR 0x22] @ '':1:{b:1;i:-7;}}'')"
proof -
  let ?fs = "\<lambda>f :: pyfloat. ''1.5''"
  let ?fl = "\<lambda>b. if b = ''1.5'' then Some (Finite (3/2)) else None"
  let ?v = "VArray [(VInt 0, VFloat (Finite (3/2))),
                    (VBytes ''k'', VObject ''P'' [(VBool True, VInt (-7))])]"
  let ?b = "''a:2:{i:0;d:1.5;s:1:'' @ [CHR 0x22] @ ''k'' @ [CHR 0x22] @ '';O:1:''
            @ [CHR 0x22] @ ''P'' @ [CHR 0x22] @ '':1:{b:1;i:-7;}}''"
  have h1: "php_serialize ?fs ?v = Inr ?b" by code_simp
  have h2: "floats_ok ?fl ?fs (floats_of ?v)" by (simp add: floats_ok_def)
  have h3: "nesting ?v \<le> 3" by simp
  from C1_round_trip_canonical [OF h1 h2 h3] h1 show ?thesis by (rule conjI [rotated])
qed

subsection \<open>C2: what the encoder accepts\<close>

lemma to_bytes_encodable:
  "(\<exists>b. to_bytes fs v = Inr b) \<longleftrightarrow> encodable v"
  "(\<exists>b. items_to_bytes fs its = Inr b) \<longleftrightarrow> encodable_items its"
  by (induction fs v and fs its rule: to_bytes_items_to_bytes.induct)
    (auto simp: bind_eq_Inr)

text \<open>
  C2 fails on the code at \<open>Null\<close>: \<open>to_bytes\<close> has no branch for \<open>None\<close>, so a value of
  the closed set that holds a \<open>Null\<close> raises SerializeError, alone or at the end of
  \<open>php_modify\<close>. The encoder succeeds exactly on the values with no \<open>Null\<close> and no
  foreign object in them.
\<close>

theorem C2_serialize_null:
  "php_serialize fs VNull = Inl (SerializeError VNull)
   \<and> php_serialize fs (VArray [(VInt 0, VNull)]) = Inl (SerializeError VNull)
   \<and> php_modify (Suc depth) fl fs ''i:124;'' ''S:=null'' = Inl (SerializeError VNull)
   \<and> ((\<exists>b. php_serialize fs v = Inr b) \<longleftrightarrow> encodable v)"
proof -
  have "php_unserialize (Suc depth) fl ''i:124;'' = Inr (VInt 124)"
    by code_simp
  moreover have "Query_run fl (VInt 124) ''S:=null'' = Inr VNull"
    by code_simp
  ultimately have "php_modify (Suc depth) fl fs ''i:124;'' ''S:=null''
      = Inl (SerializeError VNull)"
    by (simp add: php_modify_def php_serialize_def)
  then show ?thesis
    by (simp add: php_serialize_def to_bytes_encodable(1))
qed

theorem C2_serialize_null_witness:
  "php_serialize (\<lambda>f. []) VNull = Inl (SerializeError VNull)"
  by (rule conjunct1 [OF C2_serialize_null])

subsection \<open>C8: read_until\<close>

text \<open>
  C8: with a non-empty marker, \<open>read_until\<close> looks for the first occurrence of the marker
  in the input that is left. When there is one, at offset \<open>i\<close>, it returns the \<open>i\<close> bytes
  before it and moves the cursor by \<open>i\<close>, so that the marker is what comes next. When
  there is none, the code does not raise the parse failure of the claim: the \<open>split\<close>
  gives one part, and unpacking it into two raises ValueError.
\<close>

theorem C8_read_until:
  assumes "stop \<noteq> []"
  shows "read_until stop p =
      (case find_bytes stop (remaining p) of
         None \<Rightarrow> Inl (ValueError NotEnoughValuesToUnpack)
       | Some i \<Rightarrow> Inr (take i (remaining p), p\<lparr>current := current p + i\<rparr>))
    \<and> (\<forall>i. find_bytes stop (remaining p) = Some i \<longrightarrow>
          i + length stop \<le> length (remaining p)
          \<and> take (length stop) (remaining (p\<lparr>current := current p + i\<rparr>)) = stop
          \<and> (\<forall>j<i. take (length stop) (drop j (remaining p)) \<noteq> stop))
    \<and> (find_bytes stop (remaining p) = None \<longrightarrow>
          (\<forall>j\<le>length (remaining p). take (length stop) (drop j (remaining p)) \<noteq> stop))"
proof (intro conjI allI impI)
  show "read_until stop p =
      (case find_bytes stop (remaining p) of
         None \<Rightarrow> Inl (ValueError NotEnoughValuesToUnpack)
       | Some i \<Rightarrow> Inr (take i (remaining p), p\<lparr>current := current p + i\<rparr>))"
    using read_until_eq [OF assms, of p] by (simp add: next_byte_def split: option.splits)
next
  fix i assume s: "find_bytes stop (remaining p) = Some i"
  from find_bytes_Some [OF s] show "i + length stop \<le> length (remaining p)" by simp
  from find_bytes_Some [OF s]
  show "take (length stop) (remaining (p\<lparr>current := current p + i\<rparr>)) = stop"
    by (simp add: remaining_def add.commute)
  fix j assume "j < i"
  with find_bytes_Some [OF s] show "take (length stop) (drop j (remaining p)) \<noteq> stop"
    by simp
next
  fix j assume "find_bytes stop (remaining p) = None" "j \<le> length (remaining p)"
  with find_bytes_None show "take (length stop) (drop j (remaining p)) \<noteq> stop"
    by blast
qed

text \<open>The failing input: \<open>php_unserialize(b"i:5")\<close> reaches \<open>read_until(b";")\<close> at offset 2.\<close>

theorem C8_read_until_witness:
  "read_until '';'' \<lparr>data = ''i:5'', current = 2\<rparr> = Inl (ValueError NotEnoughValuesToUnpack)
   \<and> read_until '';'' \<lparr>data = ''i:5;x'', current = 2\<rparr>
       = Inr (''5'', \<lparr>data = ''i:5;x'', current = 3\<rparr>)"
proof -
  have ne: "'';'' \<noteq> []" by simp
  show ?thesis
    unfolding conjunct1 [OF C8_read_until [OF ne]]
    by (simp add: remaining_def)
qed

subsection \<open>C9: a number without digits\<close>

text \<open>
  C9 fails on the code at a lone \<open>-\<close>. Where a number is parsed and the next byte is
  neither a digit nor \<open>-\<close>, \<open>_parse_number\<close> raises ParseError with the offset, as the
  claim says. After a \<open>-\<close> that no digit and no \<open>.\<close> follows, \<open>number_string\<close> is \<open>b"-"\<close>,
  not empty, the test for a missing digit passes, and \<open>int(b"-")\<close> raises ValueError:
  so do the expressions \<open>G:-\<close> and \<open>S:=-\<close>.
\<close>

theorem C9_number_without_digits:
  "(\<not> is_valid_int_start (chunk 1 p) \<longrightarrow>
      parse_number fl p = Inl (ParseError (current p) ExpectedDigit))
   \<and> (remaining p = CHR ''-'' # r \<and> (r = [] \<or> (\<not> is_digit (hd r) \<and> hd r \<noteq> CHR ''.'')) \<longrightarrow>
      parse_number fl p = Inl (ValueError (InvalidLiteralForInt MINUS)))
   \<and> Query_run fl structure ''G:-'' = Inl (ValueError (InvalidLiteralForInt MINUS))
   \<and> Query_run fl structure ''S:=-'' = Inl (ValueError (InvalidLiteralForInt MINUS))"
proof (intro conjI impI)
  assume "\<not> is_valid_int_start (chunk 1 p)"
  then show "parse_number fl p = Inl (ParseError (current p) ExpectedDigit)"
    by (rule parse_number_not_started)
next
  assume "remaining p = CHR ''-'' # r \<and> (r = [] \<or> (\<not> is_digit (hd r) \<and> hd r \<noteq> CHR ''.''))"
  then show "parse_number fl p = Inl (ValueError (InvalidLiteralForInt MINUS))"
    using parse_number_lone_minus by blast
next
  show "Query_run fl structure ''G:-'' = Inl (ValueError (InvalidLiteralForInt MINUS))"
    by code_simp
next
  show "Query_run fl structure ''S:=-'' = Inl (ValueError (InvalidLiteralForInt MINUS))"
    by code_simp
qed

theorem C9_number_without_digits_witness:
  "remaining \<lparr>data = ''G:-'', current = 2\<rparr> = CHR ''-'' # []
   \<and> parse_number (\<lambda>b. None) \<lparr>data = ''G:-'', current = 2\<rparr>
       = Inl (ValueError (InvalidLiteralForInt MINUS))"
proof -
  have h: "remaining \<lparr>data = ''G:-'', current = 2\<rparr> = CHR ''-'' # []"
    by (simp add: remaining_def)
  then have "remaining \<lparr>data = ''G:-'', current = 2\<rparr> = CHR ''-'' # []
      \<and> ([] = [] \<or> (\<not> is_digit (hd []) \<and> hd [] \<noteq> CHR ''.''))"
    by simp
  from mp [OF conjunct1 [OF conjunct2 [OF C9_number_without_digits]] this] h
  show ?thesis by (rule conjI [rotated])
qed

subsection \<open>C10: object literals\<close>

lemma parse_object_string:
  assumes "chunk 1 p = QUERY_START_OBJECT"
    and "parse_string (next_byte 1 p) = Inr (class_name, p2)"
  shows "parse_object fl p =
     (if class_name = [] then Inl (ParseError (current p2) ClassNameEmpty)
      else bind (read_must QUERY_ITEM_SEPARATOR p2) (\<lambda>p3.
           bind (parse_array fl p3) (\<lambda>(properties, p4).
           bind (read_must QUERY_END_OBJECT p4) (\<lambda>p5.
           Inr (VObject class_name properties, p5)))))"
proof -
  from assms(1) have "read_must QUERY_START_OBJECT p = Inr (next_byte 1 p)"
    by (simp add: read_must_take)
  with assms(2) show ?thesis
    by (subst parse_object.simps) simp
qed

text \<open>
  C10: where the next byte is \<open>{\<close> and a string follows, \<open>_parse_value\<close> parses an object
  literal: an empty string fails with ParseError at the offset after the string;
  otherwise a \<open>,\<close>, an array literal and a \<open>}\<close> must follow, and the value is the object
  with the string as class name and the pairs of the array as properties. Every class
  name is the string of such a literal: spelled between quotes, with a backslash before
  each quote and backslash, it is what \<open>_parse_string\<close> returns.
\<close>

theorem C10_object_literal:
  "(chunk 1 p = QUERY_START_OBJECT \<and> parse_string (next_byte 1 p) = Inr (class_name, p2) \<longrightarrow>
      parse_value fl p =
        (if class_name = [] then Inl (ParseError (current p2) ClassNameEmpty)
         else bind (read_must QUERY_ITEM_SEPARATOR p2) (\<lambda>p3.
              bind (parse_array fl p3) (\<lambda>(properties, p4).
              bind (read_must QUERY_END_OBJECT p4) (\<lambda>p5.
              Inr (VObject class_name properties, p5))))))
   \<and> (remaining p = ''{'' @ [CHR 0x22] @ escape class_name @ [CHR 0x22] @ r \<longrightarrow>
      chunk 1 p = QUERY_START_OBJECT
      \<and> parse_string (next_byte 1 p)
          = Inr (class_name, next_byte (length (escape class_name) + 3) p))"
proof (intro conjI impI)
  assume a: "chunk 1 p = QUERY_START_OBJECT \<and> parse_string (next_byte 1 p) = Inr (class_name, p2)"
  then have "parse_value fl p = parse_object fl p" by (intro parse_value_object) simp
  with a parse_object_string [of p class_name p2 fl]
  show "parse_value fl p =
        (if class_name = [] then Inl (ParseError (current p2) ClassNameEmpty)
         else bind (read_must QUERY_ITEM_SEPARATOR p2) (\<lambda>p3.
              bind (parse_array fl p3) (\<lambda>(properties, p4).
              bind (read_must QUERY_END_OBJECT p4) (\<lambda>p5.
              Inr (VObject class_name properties, p5)))))"
    by simp
next
  assume rem: "remaining p = ''{'' @ [CHR 0x22] @ escape class_name @ [CHR 0x22] @ r"
  then show "chunk 1 p = QUERY_START_OBJECT" by simp
  from rem have "remaining (next_byte 1 p) = CHR 0x22 # escape class_name @ CHR 0x22 # r"
    by simp
  from parse_string_escape [OF this]
  show "parse_string (next_byte 1 p)
      = Inr (class_name, next_byte (length (escape class_name) + 3) p)"
    by (simp add: next_byte_def)
qed

text \<open>
  The expressions \<open>S:={"A",[1:2]}\<close> and \<open>S:={"",[1:2]}\<close>: the value starts at offset 3.
\<close>

theorem C10_object_literal_witness:
  "parse_value (\<lambda>b. None)
       \<lparr>data = ''S:={'' @ [CHR 0x22] @ ''A'' @ [CHR 0x22] @ '',[1:2]}'', current = 3\<rparr>
     = Inr (VObject ''A'' [(VInt 1, VInt 2)],
            \<lparr>data = ''S:={'' @ [CHR 0x22] @ ''A'' @ [CHR 0x22] @ '',[1:2]}'', current = 14\<rparr>)
   \<and> parse_value (\<lambda>b. None)
       \<lparr>data = ''S:={'' @ [CHR 0x22] @ [CHR 0x22] @ '',[1:2]}'', current = 3\<rparr>
     = Inl (ParseError 6 ClassNameEmpty)"
proof -
  let ?p = "\<lparr>data = ''S:={'' @ [CHR 0x22] @ ''A'' @ [CHR 0x22] @ '',[1:2]}'', current = 3\<rparr>"
  let ?q = "\<lparr>data = ''S:={'' @ [CHR 0x22] @ [CHR 0x22] @ '',[1:2]}'', current = 3\<rparr>"
  have a: "remaining ?p = ''{'' @ [CHR 0x22] @ escape ''A'' @ [CHR 0x22] @ '',[1:2]}''"
    by (simp add: remaining_def)
  have b: "remaining ?q = ''{'' @ [CHR 0x22] @ escape [] @ [CHR 0x22] @ '',[1:2]}''"
    by (simp add: remaining_def)
  note sa = mp [OF conjunct2 [OF C10_object_literal] a]
  note sb = mp [OF conjunct2 [OF C10_object_literal] b]
  note va = mp [OF conjunct1 [OF C10_object_literal] sa]
  note vb = mp [OF conjunct1 [OF C10_object_literal] sb]
  have c: "bind (read_must QUERY_ITEM_SEPARATOR (next_byte (length (escape ''A'') + 3) ?p))
        (\<lambda>p3. bind (parse_array (\<lambda>b. None) p3) (\<lambda>(properties, p4).
           bind (read_must QUERY_END_OBJECT p4) (\<lambda>p5.
           Inr (VObject ''A'' properties, p5))))
      = Inr (VObject ''A'' [(VInt 1, VInt 2)],
            \<lparr>data = ''S:={'' @ [CHR 0x22] @ ''A'' @ [CHR 0x22] @ '',[1:2]}'', current = 14\<rparr>)"
    by code_simp
  show ?thesis
    unfolding va [of "\<lambda>b. None"] vb [of "\<lambda>b. None"] using c by simp
qed

end
